theory Spec2Isabelle
  imports Complex_Main "HOL-Library.Word" "HOL-Library.Code_Target_Nat"
begin

section \<open>JavaScript strings and JSON\<close>

text \<open>
  A JavaScript string is a sequence of 16-bit code units. Everything the two components
  keep in \<^verbatim>\<open>localStorage\<close> is such a string, read with \<^verbatim>\<open>JSON.parse\<close> and
  written with \<^verbatim>\<open>JSON.stringify\<close>; both are modelled on the text itself.
\<close>

type_synonym cu = "16 word"
type_synonym jsstring = "cu list"

definition cu :: "char \<Rightarrow> cu" where
  "cu c = of_char c"

definition ustr :: "string \<Rightarrow> jsstring" where
  "ustr s = map cu s"

datatype js_error = SyntaxError | TypeError

text \<open>
  The values \<^verbatim>\<open>JSON.parse\<close> can return. A parsed number is carried as the literal it
  was read from, which determines the double it denotes. The program never computes
  with a parsed number: it tests one for truthiness, and it hands one back to
  \<^verbatim>\<open>JSON.stringify\<close>, which writes the double anew (see \<open>number_text\<close> below).
  An object is its list of own properties in property order.
\<close>

datatype json =
    JNull
  | JBool bool
  | JNumber jsstring
  | JString jsstring
  | JArray "json list"
  | JObject "(jsstring \<times> json) list"

subsection \<open>Lexical classes\<close>

definition is_ws :: "cu \<Rightarrow> bool" where
  "is_ws c \<longleftrightarrow> c = 0x20 \<or> c = 0x09 \<or> c = 0x0A \<or> c = 0x0D"

definition skip_ws :: "jsstring \<Rightarrow> jsstring" where
  "skip_ws s = dropWhile is_ws s"

definition is_digit :: "cu \<Rightarrow> bool" where
  "is_digit c \<longleftrightarrow> 0x30 \<le> c \<and> c \<le> 0x39"

definition is_num_char :: "cu \<Rightarrow> bool" where
  "is_num_char c \<longleftrightarrow>
     is_digit c \<or> c = cu CHR ''-'' \<or> c = cu CHR ''+'' \<or> c = cu CHR ''.''
       \<or> c = cu CHR ''e'' \<or> c = cu CHR ''E''"

text \<open>The grammar of a JSON number: \<^verbatim>\<open>-? (0 | [1-9][0-9]*) (. [0-9]+)? ([eE] [+-]? [0-9]+)?\<close>\<close>

definition exp_ok :: "jsstring \<Rightarrow> bool" where
  "exp_ok r =
     (case r of
        [] \<Rightarrow> True
      | c # r' \<Rightarrow>
          if c = cu CHR ''e'' \<or> c = cu CHR ''E'' then
            (let ds = (case r' of
                         [] \<Rightarrow> []
                       | s # t \<Rightarrow> if s = cu CHR ''+'' \<or> s = cu CHR ''-'' then t else r')
             in ds \<noteq> [] \<and> list_all is_digit ds)
          else False)"

definition frac_ok :: "jsstring \<Rightarrow> bool" where
  "frac_ok r =
     (case r of
        [] \<Rightarrow> True
      | c # r' \<Rightarrow>
          if c = cu CHR ''.'' then
            takeWhile is_digit r' \<noteq> [] \<and> exp_ok (dropWhile is_digit r')
          else exp_ok r)"

definition number_ok :: "jsstring \<Rightarrow> bool" where
  "number_ok tok =
     (let t = (case tok of [] \<Rightarrow> [] | c # r \<Rightarrow> if c = cu CHR ''-'' then r else tok)
      in case t of
           [] \<Rightarrow> False
         | c # r \<Rightarrow>
             if c = cu CHR ''0'' then frac_ok r
             else if is_digit c then frac_ok (dropWhile is_digit r)
             else False)"

text \<open>
  After a complete number only white space, a comma, a bracket or the end of the text can
  follow, so the scanner takes the longest run of number characters and checks it
  against the grammar.
\<close>

definition parse_number :: "jsstring \<Rightarrow> (json \<times> jsstring) option" where
  "parse_number s =
     (let tok = takeWhile is_num_char s
      in if number_ok tok then Some (JNumber tok, dropWhile is_num_char s) else None)"

text \<open>
  A number literal denotes zero when every digit of its mantissa is \<^verbatim>\<open>0\<close>. (A literal
  too small for the doubles denotes zero as well; the one test of a number in this
  program, the truthiness of the parsed user record, is followed by a test that fails
  for every number.)
\<close>

definition number_is_zero :: "jsstring \<Rightarrow> bool" where
  "number_is_zero tok =
     list_all (\<lambda>c. is_digit c \<longrightarrow> c = cu CHR ''0'')
       (takeWhile (\<lambda>c. c \<noteq> cu CHR ''e'' \<and> c \<noteq> cu CHR ''E'') tok)"

subsection \<open>Strings\<close>

definition hex_val :: "cu \<Rightarrow> nat option" where
  "hex_val c =
     (if is_digit c then Some (unat c - 48)
      else if 0x61 \<le> c \<and> c \<le> 0x66 then Some (unat c - 87)
      else if 0x41 \<le> c \<and> c \<le> 0x46 then Some (unat c - 55)
      else None)"

definition hex4 :: "cu \<Rightarrow> cu \<Rightarrow> cu \<Rightarrow> cu \<Rightarrow> cu option" where
  "hex4 a b c d =
     (case (hex_val a, hex_val b, hex_val c, hex_val d) of
        (Some x, Some y, Some z, Some w) \<Rightarrow> Some (of_nat (((x * 16 + y) * 16 + z) * 16 + w))
      | _ \<Rightarrow> None)"

definition unescape :: "cu \<Rightarrow> cu option" where
  "unescape e =
     (if e = cu CHR ''\"'' then Some 0x22
      else if e = cu CHR 0x5C then Some 0x5C
      else if e = cu CHR ''/'' then Some 0x2F
      else if e = cu CHR ''b'' then Some 0x08
      else if e = cu CHR ''f'' then Some 0x0C
      else if e = cu CHR ''n'' then Some 0x0A
      else if e = cu CHR ''r'' then Some 0x0D
      else if e = cu CHR ''t'' then Some 0x09
      else None)"

definition cons_result :: "cu \<Rightarrow> (jsstring \<times> jsstring) option \<Rightarrow> (jsstring \<times> jsstring) option" where
  "cons_result c r = (case r of None \<Rightarrow> None | Some (s, rest) \<Rightarrow> Some (c # s, rest))"

text \<open>
  The characters of a string literal after its opening quote, up to the closing quote:
  the decoded string and the rest of the text.
\<close>

fun parse_chars :: "jsstring \<Rightarrow> (jsstring \<times> jsstring) option" where
  "parse_chars [] = None"
| "parse_chars (c # cs) =
     (if c = cu CHR ''\"'' then Some ([], cs)
      else if c = cu CHR 0x5C then
        (case cs of
           [] \<Rightarrow> None
         | e # es \<Rightarrow>
             if e = cu CHR ''u'' then
               (case es of
                  h1 # h2 # h3 # h4 # rest \<Rightarrow>
                    (case hex4 h1 h2 h3 h4 of
                       None \<Rightarrow> None
                     | Some u \<Rightarrow> cons_result u (parse_chars rest))
                | _ \<Rightarrow> None)
             else
               (case unescape e of
                  None \<Rightarrow> None
                | Some u \<Rightarrow> cons_result u (parse_chars es)))
      else if c < 0x20 then None
      else cons_result c (parse_chars cs))"

definition hex_digit :: "nat \<Rightarrow> cu" where
  "hex_digit n = (if n < 10 then of_nat (48 + n) else of_nat (87 + n))"

definition hex4_print :: "cu \<Rightarrow> jsstring" where
  "hex4_print c =
     (let n = unat c
      in [hex_digit (n div 4096), hex_digit (n div 256 mod 16),
          hex_digit (n div 16 mod 16), hex_digit (n mod 16)])"

definition is_high :: "cu \<Rightarrow> bool" where
  "is_high c \<longleftrightarrow> 0xD800 \<le> c \<and> c \<le> 0xDBFF"

definition is_low :: "cu \<Rightarrow> bool" where
  "is_low c \<longleftrightarrow> 0xDC00 \<le> c \<and> c \<le> 0xDFFF"

text \<open>
  \<^verbatim>\<open>JSON.stringify\<close> on one code unit that is not half of a surrogate pair: the short
  escapes, \<^verbatim>\<open>\u\<close> escapes for the other control characters and for lone surrogates.
\<close>

definition escape_cu :: "cu \<Rightarrow> jsstring" where
  "escape_cu c =
     (if c = 0x08 then ustr [CHR 0x5C, CHR ''b'']
      else if c = 0x09 then ustr [CHR 0x5C, CHR ''t'']
      else if c = 0x0A then ustr [CHR 0x5C, CHR ''n'']
      else if c = 0x0C then ustr [CHR 0x5C, CHR ''f'']
      else if c = 0x0D then ustr [CHR 0x5C, CHR ''r'']
      else if c = 0x22 then ustr [CHR 0x5C, CHR ''\"'']
      else if c = 0x5C then ustr [CHR 0x5C, CHR 0x5C]
      else if c < 0x20 \<or> is_high c \<or> is_low c then ustr [CHR 0x5C, CHR ''u''] @ hex4_print c
      else [c])"

fun quote_chars :: "jsstring \<Rightarrow> jsstring" where
  "quote_chars [] = []"
| "quote_chars [c] = escape_cu c"
| "quote_chars (c # d # cs) =
     (if is_high c \<and> is_low d then c # d # quote_chars cs
      else escape_cu c @ quote_chars (d # cs))"

definition quote :: "jsstring \<Rightarrow> jsstring" where
  "quote s = cu CHR ''\"'' # quote_chars s @ [cu CHR ''\"'']"

subsection \<open>Objects\<close>

text \<open>
  The own properties of an ordinary object are kept with the array-index keys first, in
  ascending order, then the other keys in the order of their creation; defining a
  property that exists replaces its value in place.
\<close>

definition digits_val :: "jsstring \<Rightarrow> nat" where
  "digits_val ds = foldl (\<lambda>a c. a * 10 + (unat c - 48)) 0 ds"

definition array_index :: "jsstring \<Rightarrow> nat option" where
  "array_index k =
     (case k of
        [] \<Rightarrow> None
      | c # cs \<Rightarrow>
          if c = cu CHR ''0'' then (if cs = [] then Some 0 else None)
          else if is_digit c \<and> list_all is_digit cs \<and> digits_val k \<le> 4294967294
          then Some (digits_val k)
          else None)"

fun insert_index :: "nat \<Rightarrow> jsstring \<Rightarrow> json \<Rightarrow> (jsstring \<times> json) list \<Rightarrow> (jsstring \<times> json) list" where
  "insert_index i k v [] = [(k, v)]"
| "insert_index i k v ((k', v') # kvs) =
     (case array_index k' of
        None \<Rightarrow> (k, v) # (k', v') # kvs
      | Some j \<Rightarrow> if j < i then (k', v') # insert_index i k v kvs else (k, v) # (k', v') # kvs)"

fun replace_prop :: "jsstring \<Rightarrow> json \<Rightarrow> (jsstring \<times> json) list \<Rightarrow> (jsstring \<times> json) list" where
  "replace_prop k v [] = []"
| "replace_prop k v ((k', v') # kvs) =
     (if k' = k then (k, v) # kvs else (k', v') # replace_prop k v kvs)"

definition obj_put :: "(jsstring \<times> json) list \<Rightarrow> jsstring \<Rightarrow> json \<Rightarrow> (jsstring \<times> json) list" where
  "obj_put kvs k v =
     (if k \<in> fst ` set kvs then replace_prop k v kvs
      else case array_index k of
             None \<Rightarrow> kvs @ [(k, v)]
           | Some i \<Rightarrow> insert_index i k v kvs)"

text \<open>
  Reading a property of a parsed value. Only objects have own properties with the names
  this program reads (\<^verbatim>\<open>email\<close>, \<^verbatim>\<open>password\<close>, \<^verbatim>\<open>name\<close>); on a string, number,
  boolean or array the lookup yields \<^verbatim>\<open>undefined\<close>, here \<open>None\<close>.
\<close>

definition get_prop :: "json \<Rightarrow> jsstring \<Rightarrow> json option" where
  "get_prop v k = (case v of JObject kvs \<Rightarrow> map_of kvs k | _ \<Rightarrow> None)"

text \<open>JavaScript truthiness of a parsed value.\<close>

definition falsy :: "json \<Rightarrow> bool" where
  "falsy v =
     (case v of
        JNull \<Rightarrow> True
      | JBool b \<Rightarrow> \<not> b
      | JNumber l \<Rightarrow> number_is_zero l
      | JString s \<Rightarrow> s = []
      | _ \<Rightarrow> False)"

subsection \<open>\<^verbatim>\<open>JSON.parse\<close>\<close>

definition strip_prefix :: "jsstring \<Rightarrow> jsstring \<Rightarrow> jsstring option" where
  "strip_prefix p s = (if take (length p) s = p then Some (drop (length p) s) else None)"

definition parse_literal :: "string \<Rightarrow> json \<Rightarrow> jsstring \<Rightarrow> (json \<times> jsstring) option" where
  "parse_literal w v s = (case strip_prefix (ustr w) s of None \<Rightarrow> None | Some r \<Rightarrow> Some (v, r))"

text \<open>
  The recursive descent over the text. The first argument bounds the depth of the
  recursion; \<open>JSON_parse\<close> starts it above the length of the text, which is enough
  for every text (lemma \<open>JSON_parse_fuel\<close> below).
\<close>

fun parse_value :: "nat \<Rightarrow> jsstring \<Rightarrow> (json \<times> jsstring) option"
  and parse_elements :: "nat \<Rightarrow> jsstring \<Rightarrow> json list \<Rightarrow> (json \<times> jsstring) option"
  and parse_members :: "nat \<Rightarrow> jsstring \<Rightarrow> (jsstring \<times> json) list \<Rightarrow> (json \<times> jsstring) option"
where
  "parse_value 0 s = None"
| "parse_value (Suc n) s =
     (case skip_ws s of
        [] \<Rightarrow> None
      | c # cs \<Rightarrow>
          if c = cu CHR ''{'' then
            (case skip_ws cs of
               [] \<Rightarrow> None
             | d # ds \<Rightarrow> if d = cu CHR ''}'' then Some (JObject [], ds) else parse_members n cs [])
          else if c = cu CHR ''['' then
            (case skip_ws cs of
               [] \<Rightarrow> None
             | d # ds \<Rightarrow> if d = cu CHR '']'' then Some (JArray [], ds) else parse_elements n cs [])
          else if c = cu CHR ''\"'' then
            (case parse_chars cs of None \<Rightarrow> None | Some (str, r) \<Rightarrow> Some (JString str, r))
          else if c = cu CHR ''t'' then parse_literal ''true'' (JBool True) (c # cs)
          else if c = cu CHR ''f'' then parse_literal ''false'' (JBool False) (c # cs)
          else if c = cu CHR ''n'' then parse_literal ''null'' JNull (c # cs)
          else parse_number (c # cs))"
| "parse_elements 0 s acc = None"
| "parse_elements (Suc n) s acc =
     (case parse_value n s of
        None \<Rightarrow> None
      | Some (v, r) \<Rightarrow>
          (case skip_ws r of
             [] \<Rightarrow> None
           | c # r' \<Rightarrow>
               if c = cu CHR '','' then parse_elements n r' (acc @ [v])
               else if c = cu CHR '']'' then Some (JArray (acc @ [v]), r')
               else None))"
| "parse_members 0 s acc = None"
| "parse_members (Suc n) s acc =
     (case skip_ws s of
        [] \<Rightarrow> None
      | q # s1 \<Rightarrow>
          if q \<noteq> cu CHR ''\"'' then None
          else
            (case parse_chars s1 of
               None \<Rightarrow> None
             | Some (k, s2) \<Rightarrow>
                 (case skip_ws s2 of
                    [] \<Rightarrow> None
                  | c # s3 \<Rightarrow>
                      if c \<noteq> cu CHR '':'' then None
                      else
                        (case parse_value n s3 of
                           None \<Rightarrow> None
                         | Some (v, s4) \<Rightarrow>
                             (case skip_ws s4 of
                                [] \<Rightarrow> None
                              | d # s5 \<Rightarrow>
                                  if d = cu CHR '','' then parse_members n s5 (obj_put acc k v)
                                  else if d = cu CHR ''}'' then Some (JObject (obj_put acc k v), s5)
                                  else None)))))"

text \<open>\<^verbatim>\<open>JSON.parse(text)\<close>: one value between optional white space, or a SyntaxError.\<close>

definition JSON_parse :: "jsstring \<Rightarrow> js_error + json" where
  "JSON_parse s =
     (case parse_value (Suc (length s)) s of
        None \<Rightarrow> Inl SyntaxError
      | Some (v, r) \<Rightarrow> if skip_ws r = [] then Inr v else Inl SyntaxError)"

subsection \<open>Numbers\<close>

text \<open>The decimal digits of a natural number.\<close>

function show_nat :: "nat \<Rightarrow> jsstring" where
  "show_nat n = (if n < 10 then [of_nat (48 + n)] else show_nat (n div 10) @ [of_nat (48 + n mod 10)])"
  by pat_completeness auto
termination
  by (relation "measure id") auto

declare show_nat.simps [simp del]

text \<open>
  A JavaScript number is an IEEE double. Two operations of the platform on doubles
  reach this program: \<^verbatim>\<open>JSON.stringify\<close> writes a number as the shortest decimal text
  that denotes the same double, or as \<^verbatim>\<open>null\<close> when the number is not finite; and
  the arithmetic of the upload timer rounds each result to the nearest double. Neither
  is computed here. Both are taken from a \<open>platform\<close>, a type whose every element
  satisfies the following laws, which hold of IEEE doubles and of the text ECMAScript
  prescribes for them.

  \<open>plain_integer l\<close>: \<open>l\<close> is the decimal numeral, without leading zeros and not
  \<^verbatim>\<open>-0\<close>, of an integer of magnitude at most \<open>2\<^sup>5\<^sup>3 - 1\<close>. Such a literal denotes
  that integer exactly, and the integer is written back with the same digits.
\<close>

definition plain_integer :: "jsstring \<Rightarrow> bool" where
  "plain_integer l \<longleftrightarrow>
     (\<exists>n \<le> 9007199254740991. l = show_nat n \<or> (0 < n \<and> l = cu CHR ''-'' # show_nat n))"

text \<open>
  \<open>number_format fmt\<close>: \<open>fmt l\<close> is the text written for the double that the number
  literal \<open>l\<close> denotes. A plain integer is written as it stands; every number literal is
  written as a number literal, or as \<^verbatim>\<open>null\<close> (when it is beyond the range of the
  doubles, as \<^verbatim>\<open>1e400\<close> is).
\<close>

definition number_format :: "(jsstring \<Rightarrow> jsstring) \<Rightarrow> bool" where
  "number_format fmt \<longleftrightarrow>
     (\<forall>l. plain_integer l \<longrightarrow> fmt l = l)
     \<and> (\<forall>l. number_ok l \<and> list_all is_num_char l \<longrightarrow>
            fmt l = ustr ''null'' \<or> (number_ok (fmt l) \<and> list_all is_num_char (fmt l)))"

text \<open>
  \<open>rounding f\<close>: \<open>f x\<close> is the double nearest to the real \<open>x\<close>. Rounding is monotone,
  leaves a double as it is, and every integer of magnitude at most \<open>2\<^sup>5\<^sup>3\<close> is a
  double.
\<close>

definition rounding :: "(real \<Rightarrow> real) \<Rightarrow> bool" where
  "rounding f \<longleftrightarrow>
     (\<forall>x y. x \<le> y \<longrightarrow> f x \<le> f y)
     \<and> (\<forall>x. f (f x) = f x)
     \<and> (\<forall>k::int. \<bar>k\<bar> \<le> 9007199254740992 \<longrightarrow> f (of_int k) = of_int k)"

text \<open>
  The laws can be met: by exact arithmetic, and by writing \<^verbatim>\<open>null\<close> for every number
  that is not a plain integer. The examples of this theory are run on that platform;
  their numbers are plain integers, halves and sixteenths in the range of the progress,
  and one literal beyond the range of the doubles, on all of which it computes what
  JavaScript computes.
\<close>

definition example_format :: "jsstring \<Rightarrow> jsstring" where
  "example_format l = (if plain_integer l then l else ustr ''null'')"

typedef platform =
  "{(fmt :: jsstring \<Rightarrow> jsstring, f :: real \<Rightarrow> real). number_format fmt \<and> rounding f}"
  by (rule exI [of _ "(example_format, id)"])
     (simp add: number_format_def example_format_def rounding_def)

definition number_text :: "platform \<Rightarrow> jsstring \<Rightarrow> jsstring" where
  "number_text pf = fst (Rep_platform pf)"

definition double_of :: "platform \<Rightarrow> real \<Rightarrow> real" where
  "double_of pf = snd (Rep_platform pf)"

definition example_platform :: platform where
  "example_platform = Abs_platform (example_format, id)"

subsection \<open>\<^verbatim>\<open>JSON.stringify\<close>\<close>

text \<open>
  \<^verbatim>\<open>JSON.stringify\<close> in two steps. \<open>as_written\<close> replaces every number of the value
  by what is written for it: the number whose literal is its text, or \<^verbatim>\<open>null\<close>.
  \<open>stringify\<close> is the text of the result, a number being written by its literal.
\<close>

fun as_written :: "platform \<Rightarrow> json \<Rightarrow> json"
  and written_elements :: "platform \<Rightarrow> json list \<Rightarrow> json list"
  and written_members :: "platform \<Rightarrow> (jsstring \<times> json) list \<Rightarrow> (jsstring \<times> json) list"
where
  "as_written pf JNull = JNull"
| "as_written pf (JBool b) = JBool b"
| "as_written pf (JNumber l) =
     (if number_text pf l = ustr ''null'' then JNull else JNumber (number_text pf l))"
| "as_written pf (JString s) = JString s"
| "as_written pf (JArray vs) = JArray (written_elements pf vs)"
| "as_written pf (JObject kvs) = JObject (written_members pf kvs)"
| "written_elements pf [] = []"
| "written_elements pf (v # vs) = as_written pf v # written_elements pf vs"
| "written_members pf [] = []"
| "written_members pf ((k, v) # kvs) = (k, as_written pf v) # written_members pf kvs"

fun stringify :: "json \<Rightarrow> jsstring"
  and stringify_elements :: "json list \<Rightarrow> jsstring"
  and stringify_members :: "(jsstring \<times> json) list \<Rightarrow> jsstring"
where
  "stringify JNull = ustr ''null''"
| "stringify (JBool b) = (if b then ustr ''true'' else ustr ''false'')"
| "stringify (JNumber l) = l"
| "stringify (JString s) = quote s"
| "stringify (JArray vs) = cu CHR ''['' # stringify_elements vs"
| "stringify (JObject kvs) = cu CHR ''{'' # stringify_members kvs"
| "stringify_elements [] = [cu CHR '']'']"
| "stringify_elements [v] = stringify v @ [cu CHR '']'']"
| "stringify_elements (v # w # vs) = stringify v @ cu CHR '','' # stringify_elements (w # vs)"
| "stringify_members [] = [cu CHR ''}'']"
| "stringify_members [(k, v)] = quote k @ cu CHR '':'' # stringify v @ [cu CHR ''}'']"
| "stringify_members ((k, v) # kv # kvs) =
     quote k @ cu CHR '':'' # stringify v @ cu CHR '','' # stringify_members (kv # kvs)"

definition JSON_stringify :: "platform \<Rightarrow> json \<Rightarrow> jsstring" where
  "JSON_stringify pf v = stringify (as_written pf v)"

subsection \<open>Well-formed values and property order\<close>

text \<open>
  \<open>key_before k k'\<close>: in the property order of an object, a key \<open>k\<close> may stand
  before a different key \<open>k'\<close>: an array index stands before every key that is not
  one, and before the larger array indices.
\<close>

definition key_before :: "jsstring \<Rightarrow> jsstring \<Rightarrow> bool" where
  "key_before k k' \<longleftrightarrow>
     k \<noteq> k' \<and>
     (case array_index k' of
        None \<Rightarrow> True
      | Some j \<Rightarrow> (case array_index k of None \<Rightarrow> False | Some i \<Rightarrow> i < j))"

text \<open>
  A value is well formed when it is one that \<open>JSON_parse\<close> can return: its numbers are
  number literals, and the keys of each of its objects are distinct and in property
  order. \<open>rebuild\<close> builds every object anew, by defining its properties one after
  the other, as \<open>JSON_parse\<close> does; on a well-formed value it changes nothing.
\<close>

fun wf_json :: "json \<Rightarrow> bool"
  and wf_elements :: "json list \<Rightarrow> bool"
  and wf_members :: "(jsstring \<times> json) list \<Rightarrow> bool"
where
  "wf_json JNull = True"
| "wf_json (JBool b) = True"
| "wf_json (JNumber l) = (number_ok l \<and> list_all is_num_char l)"
| "wf_json (JString s) = True"
| "wf_json (JArray vs) = wf_elements vs"
| "wf_json (JObject kvs) = (sorted_wrt key_before (map fst kvs) \<and> wf_members kvs)"
| "wf_elements [] = True"
| "wf_elements (v # vs) = (wf_json v \<and> wf_elements vs)"
| "wf_members [] = True"
| "wf_members ((k, v) # kvs) = (wf_json v \<and> wf_members kvs)"

fun rebuild :: "json \<Rightarrow> json"
  and rebuild_elements :: "json list \<Rightarrow> json list"
  and rebuild_members :: "(jsstring \<times> json) list \<Rightarrow> (jsstring \<times> json) list \<Rightarrow> (jsstring \<times> json) list"
where
  "rebuild JNull = JNull"
| "rebuild (JBool b) = JBool b"
| "rebuild (JNumber l) = JNumber l"
| "rebuild (JString s) = JString s"
| "rebuild (JArray vs) = JArray (rebuild_elements vs)"
| "rebuild (JObject kvs) = JObject (rebuild_members kvs [])"
| "rebuild_elements [] = []"
| "rebuild_elements (v # vs) = rebuild v # rebuild_elements vs"
| "rebuild_members [] acc = acc"
| "rebuild_members ((k, v) # kvs) acc = rebuild_members kvs (obj_put acc k (rebuild v))"

text \<open>\<open>plain_numbers v\<close>: every number in \<open>v\<close> is a plain integer.\<close>

fun plain_numbers :: "json \<Rightarrow> bool"
  and plain_elements :: "json list \<Rightarrow> bool"
  and plain_members :: "(jsstring \<times> json) list \<Rightarrow> bool"
where
  "plain_numbers JNull = True"
| "plain_numbers (JBool b) = True"
| "plain_numbers (JNumber l) = plain_integer l"
| "plain_numbers (JString s) = True"
| "plain_numbers (JArray vs) = plain_elements vs"
| "plain_numbers (JObject kvs) = plain_members kvs"
| "plain_elements [] = True"
| "plain_elements (v # vs) = (plain_numbers v \<and> plain_elements vs)"
| "plain_members [] = True"
| "plain_members ((k, v) # kvs) = (plain_numbers v \<and> plain_members kvs)"

section \<open>The durable store\<close>

text \<open>
  \<^verbatim>\<open>localStorage\<close>: text by key. \<^verbatim>\<open>getItem\<close> yields \<^verbatim>\<open>null\<close> (here \<open>None\<close>)
  for a key that is absent. Writes are taken to succeed (the quota is not modelled).
\<close>

type_synonym storage = "string \<rightharpoonup> jsstring"

definition getItem :: "storage \<Rightarrow> string \<Rightarrow> jsstring option" where
  "getItem ls k = ls k"

definition setItem :: "storage \<Rightarrow> string \<Rightarrow> jsstring \<Rightarrow> storage" where
  "setItem ls k v = ls(k \<mapsto> v)"

text \<open>\<^verbatim>\<open>x || d\<close> for \<^verbatim>\<open>x\<close> a string or \<^verbatim>\<open>null\<close>: the empty string is falsy too.\<close>

definition or_default :: "jsstring option \<Rightarrow> jsstring \<Rightarrow> jsstring" where
  "or_default x d = (case x of None \<Rightarrow> d | Some t \<Rightarrow> if t = [] then d else t)"

text \<open>
  An object literal handed to \<^verbatim>\<open>JSON.stringify\<close>: a property whose value is
  \<^verbatim>\<open>undefined\<close> is left out of the text. None of the keys written by this program is
  an array index, so the properties keep the order of the literal.
\<close>

fun omit_undefined :: "(jsstring \<times> json option) list \<Rightarrow> (jsstring \<times> json) list" where
  "omit_undefined [] = []"
| "omit_undefined ((k, None) # ps) = omit_undefined ps"
| "omit_undefined ((k, Some v) # ps) = (k, v) # omit_undefined ps"

section \<open>Login (src/pages/Login.tsx)\<close>

datatype login_signal = FillInAllFields | InvalidCredentials | LoggedIn

text \<open>
  The read of the user record, line 25:
  \<^verbatim>\<open>JSON.parse(localStorage.getItem('userData') || '{}')\<close>. Nothing around it catches.
\<close>

definition readUser :: "storage \<Rightarrow> js_error + json" where
  "readUser ls = JSON_parse (or_default (getItem ls ''userData'') (ustr ''{}''))"

text \<open>
  \<^verbatim>\<open>handleLogin\<close> on the form's email and password and the store: the signal shown to
  the user and the store afterwards, or the error that \<^verbatim>\<open>JSON.parse\<close> throws out of
  the handler.
\<close>

definition handleLogin ::
  "platform \<Rightarrow> jsstring \<Rightarrow> jsstring \<Rightarrow> storage \<Rightarrow> js_error + (login_signal \<times> storage)" where
  "handleLogin pf email password ls =
     (if email = [] \<or> password = [] then Inr (FillInAllFields, ls)
      else
        case readUser ls of
          Inl e \<Rightarrow> Inl e
        | Inr storedUserData \<Rightarrow>
            if falsy storedUserData
               \<or> get_prop storedUserData (ustr ''email'') \<noteq> Some (JString email)
               \<or> get_prop storedUserData (ustr ''password'') \<noteq> Some (JString password)
            then Inr (InvalidCredentials, ls)
            else
              let userData = JObject (omit_undefined
                    [(ustr ''name'', get_prop storedUserData (ustr ''name'')),
                     (ustr ''email'', get_prop storedUserData (ustr ''email'')),
                     (ustr ''isLoggedIn'', Some (JBool True))])
              in Inr (LoggedIn, setItem ls ''userData'' (JSON_stringify pf userData)))"

section \<open>The uploader (FileUploader)\<close>

subsection \<open>Dates as text\<close>

definition pad :: "nat \<Rightarrow> nat \<Rightarrow> jsstring" where
  "pad w n = replicate (w - length (show_nat n)) (cu CHR ''0'') @ show_nat n"

text \<open>
  The civil date of a day number (days since 1 January 1970), by the usual era
  arithmetic on the proleptic Gregorian calendar: 400-year eras of 146097 days, years
  starting in March. The steps are separate functions so that each is computed on the
  value of the one before.
\<close>

definition ymd_of_mp :: "nat \<Rightarrow> nat \<Rightarrow> nat \<Rightarrow> nat \<times> nat \<times> nat" where
  "ymd_of_mp y0 doy mp =
     (let m = (if mp < 10 then mp + 3 else mp - 9)
      in (y0 + (if m \<le> 2 then 1 else 0), m, doy - (153 * mp + 2) div 5 + 1))"

definition ymd_of_yoe :: "nat \<Rightarrow> nat \<Rightarrow> nat \<Rightarrow> nat \<times> nat \<times> nat" where
  "ymd_of_yoe era doe yoe =
     (let doy = doe - (365 * yoe + yoe div 4 - yoe div 100)
      in ymd_of_mp (yoe + era * 400) doy ((5 * doy + 2) div 153))"

definition ymd_of_doe :: "nat \<Rightarrow> nat \<Rightarrow> nat \<times> nat \<times> nat" where
  "ymd_of_doe era doe =
     ymd_of_yoe era doe ((doe - doe div 1460 + doe div 36524 - doe div 146096) div 365)"

definition civil_from_days :: "nat \<Rightarrow> nat \<times> nat \<times> nat" where
  "civil_from_days days = ymd_of_doe ((days + 719468) div 146097) ((days + 719468) mod 146097)"

text \<open>
  \<^verbatim>\<open>Date.prototype.toISOString\<close> on a time value in milliseconds since the epoch, which
  is how \<^verbatim>\<open>JSON.stringify\<close> writes a \<^verbatim>\<open>Date\<close>. The clock is taken to stay within the
  range of \<^verbatim>\<open>Date\<close>.
\<close>

definition iso_format :: "nat \<times> nat \<times> nat \<Rightarrow> nat \<Rightarrow> jsstring" where
  "iso_format ymd msod =
     (case ymd of (y, m, d) \<Rightarrow>
        (if y \<le> 9999 then pad 4 y else cu CHR ''+'' # pad 6 y)
        @ cu CHR ''-'' # pad 2 m @ cu CHR ''-'' # pad 2 d
        @ cu CHR ''T'' # pad 2 (msod div 3600000)
        @ cu CHR '':'' # pad 2 (msod div 60000 mod 60)
        @ cu CHR '':'' # pad 2 (msod div 1000 mod 60)
        @ cu CHR ''.'' # pad 3 (msod mod 1000) @ [cu CHR ''Z''])"

definition toISOString :: "nat \<Rightarrow> jsstring" where
  "toISOString ms = iso_format (civil_from_days (ms div 86400000)) (ms mod 86400000)"

subsection \<open>Data\<close>

text \<open>The part of a browser \<^verbatim>\<open>File\<close> that the component reads.\<close>

record file_handle =
  file_name :: jsstring
  file_type :: jsstring
  file_size :: nat

datatype upload_status = Uploading | Complete | Error

text \<open>\<^verbatim>\<open>progress\<close> is a JavaScript number: a double, here the real it is.\<close>

record UploadingFile =
  uf_id :: jsstring
  uf_file :: file_handle
  progress :: real
  status :: upload_status
  uf_error :: "jsstring option"

text \<open>
  The object \<^verbatim>\<open>saveUploadedFile\<close> is called with; \<open>modifiedAt\<close> is the time value of
  the \<^verbatim>\<open>Date\<close>. The size is a number like any other: \<open>JSON_stringify\<close> writes the
  double nearest to it.
\<close>

record fileData =
  fd_id :: jsstring
  fd_name :: jsstring
  fd_type :: jsstring
  fd_size :: nat
  modifiedAt :: nat
  isFolder :: bool

definition fileData_json :: "fileData \<Rightarrow> json" where
  "fileData_json fd =
     JObject
       [(ustr ''id'', JString (fd_id fd)),
        (ustr ''name'', JString (fd_name fd)),
        (ustr ''type'', JString (fd_type fd)),
        (ustr ''size'', JNumber (show_nat (fd_size fd))),
        (ustr ''modifiedAt'', JString (toISOString (modifiedAt fd))),
        (ustr ''isFolder'', JBool (isFolder fd))]"

text \<open>
  The string iterator yields code points: a surrogate pair is one element, every other
  code unit an element of its own.
\<close>

fun code_points :: "jsstring \<Rightarrow> jsstring list" where
  "code_points [] = []"
| "code_points [c] = [[c]]"
| "code_points (c # d # cs) =
     (if is_high c \<and> is_low d then [c, d] # code_points cs else [c] # code_points (d # cs))"

text \<open>\<^verbatim>\<open>[...v]\<close> on a parsed value: arrays and strings are iterable, nothing else is.\<close>

definition spread :: "json \<Rightarrow> js_error + json list" where
  "spread v =
     (case v of
        JArray xs \<Rightarrow> Inr xs
      | JString s \<Rightarrow> Inr (map JString (code_points s))
      | _ \<Rightarrow> Inl TypeError)"

text \<open>
  The read of the stored files, line 85 of the component:
  \<^verbatim>\<open>JSON.parse(localStorage.getItem('uploadedFiles') || '[]')\<close>.
\<close>

definition readUploadedFiles :: "storage \<Rightarrow> js_error + json" where
  "readUploadedFiles ls = JSON_parse (or_default (getItem ls ''uploadedFiles'') (ustr ''[]''))"

definition saveUploadedFile :: "platform \<Rightarrow> fileData \<Rightarrow> storage \<Rightarrow> js_error + storage" where
  "saveUploadedFile pf fd ls =
     (case readUploadedFiles ls of
        Inl e \<Rightarrow> Inl e
      | Inr existingFiles \<Rightarrow>
          (case spread existingFiles of
             Inl e \<Rightarrow> Inl e
           | Inr xs \<Rightarrow>
               let updatedFiles = JArray (xs @ [fileData_json fd])
               in Inr (setItem ls ''uploadedFiles'' (JSON_stringify pf updatedFiles))))"

subsection \<open>Component state and timers\<close>

text \<open>
  One record per \<^verbatim>\<open>setInterval\<close> started by \<^verbatim>\<open>simulateFileUpload\<close>: the variables the
  callback closes over (\<^verbatim>\<open>fileId\<close>, \<^verbatim>\<open>file\<close>, \<^verbatim>\<open>progress\<close>), whether the interval
  is still set, and the time from which its next run is due.
\<close>

record interval =
  iv_fileId :: jsstring
  iv_file :: file_handle
  iv_progress :: real
  iv_active :: bool
  iv_due :: nat

text \<open>A pending \<^verbatim>\<open>setTimeout\<close> of the removal of an entry.\<close>

record timeout =
  to_fileId :: jsstring
  to_due :: nat

text \<open>
  The state of the component and of what it touches: the \<^verbatim>\<open>uploadingFiles\<close> list, the
  store, the timers, the clock in milliseconds since the epoch, the success
  notifications raised, and the errors thrown out of a timer callback.
\<close>

record state =
  uploadingFiles :: "UploadingFile list"
  localStorage :: storage
  intervals :: "interval list"
  timeouts :: "timeout list"
  clock :: nat
  toasts :: "string list"
  uncaught :: "js_error list"

definition new_upload :: "nat \<Rightarrow> file_handle \<Rightarrow> UploadingFile" where
  "new_upload now f =
     \<lparr>uf_id = file_name f @ ustr ''-'' @ show_nat now, uf_file = f, progress = 0,
      status = Uploading, uf_error = None\<rparr>"

text \<open>\<^verbatim>\<open>simulateFileUpload(fileId, file)\<close>: \<^verbatim>\<open>progress = 0\<close> and an interval of 200 ms.\<close>

definition simulateFileUpload :: "nat \<Rightarrow> jsstring \<Rightarrow> file_handle \<Rightarrow> interval" where
  "simulateFileUpload now fileId f =
     \<lparr>iv_fileId = fileId, iv_file = f, iv_progress = 0, iv_active = True, iv_due = now + 200\<rparr>"

definition handleFileSelect :: "file_handle list option \<Rightarrow> state \<Rightarrow> state" where
  "handleFileSelect files st =
     (case files of
        None \<Rightarrow> st
      | Some fs \<Rightarrow>
          if length fs = 0 then st
          else
            let newFiles = map (new_upload (clock st)) fs
            in st\<lparr>uploadingFiles := uploadingFiles st @ newFiles,
                  intervals := intervals st
                    @ map (\<lambda>fileObj. simulateFileUpload (clock st) (uf_id fileObj) (uf_file fileObj)) newFiles\<rparr>)"

text \<open>The record the callback saves on completion, lines 58 to 65.\<close>

definition uploaded_record :: "jsstring \<Rightarrow> file_handle \<Rightarrow> nat \<Rightarrow> fileData" where
  "uploaded_record fileId f now =
     \<lparr>fd_id = fileId, fd_name = file_name f, fd_type = file_type f, fd_size = file_size f,
      modifiedAt = now, isFolder = False\<rparr>"

text \<open>
  \<^verbatim>\<open>progress += Math.random() * 10\<close>, with \<open>r\<close> the value of \<^verbatim>\<open>Math.random()\<close>: the
  product and the sum are each rounded to a double.
\<close>

definition next_progress :: "platform \<Rightarrow> real \<Rightarrow> real \<Rightarrow> real" where
  "next_progress pf p r = double_of pf (p + double_of pf (r * 10))"

text \<open>
  One run of the interval callback of interval \<open>i\<close>, with \<open>r\<close> the value of
  \<^verbatim>\<open>Math.random()\<close>; \<open>None\<close> when the interval is cleared or not yet due.
  When \<^verbatim>\<open>saveUploadedFile\<close> throws, the callback ends there: the interval is cleared
  and the entry marked complete, but no toast is raised and no removal scheduled.
\<close>

definition tick :: "platform \<Rightarrow> nat \<Rightarrow> real \<Rightarrow> state \<Rightarrow> state option" where
  "tick pf i r st =
     (if i < length (intervals st) \<and> iv_active (intervals st ! i) \<and> iv_due (intervals st ! i) \<le> clock st
      then
        let iv = intervals st ! i;
            fileId = iv_fileId iv;
            f = iv_file iv;
            p = next_progress pf (iv_progress iv) r
        in if p \<ge> 100 then
             let st1 = st\<lparr>intervals := (intervals st)[i := iv\<lparr>iv_progress := 100, iv_active := False\<rparr>],
                         uploadingFiles := map (\<lambda>u. if uf_id u = fileId
                                                   then u\<lparr>progress := 100, status := Complete\<rparr> else u)
                                             (uploadingFiles st)\<rparr>
             in case saveUploadedFile pf (uploaded_record fileId f (clock st)) (localStorage st) of
                  Inl e \<Rightarrow> Some (st1\<lparr>uncaught := uncaught st @ [e]\<rparr>)
                | Inr ls' \<Rightarrow>
                    Some (st1\<lparr>localStorage := ls',
                              toasts := toasts st @ [''File uploaded successfully''],
                              timeouts := timeouts st @ [\<lparr>to_fileId = fileId, to_due = clock st + 2000\<rparr>],
                              uploadingFiles := map (\<lambda>u. if uf_id u = fileId then u\<lparr>progress := 100\<rparr> else u)
                                                  (uploadingFiles st1)\<rparr>)
           else
             Some (st\<lparr>intervals := (intervals st)[i := iv\<lparr>iv_progress := p, iv_due := clock st + 200\<rparr>],
                      uploadingFiles := map (\<lambda>u. if uf_id u = fileId then u\<lparr>progress := p\<rparr> else u)
                                          (uploadingFiles st)\<rparr>)
      else None)"

text \<open>The callback of pending timeout \<open>j\<close>, once its 2000 ms have passed.\<close>

definition fire_timeout :: "nat \<Rightarrow> state \<Rightarrow> state option" where
  "fire_timeout j st =
     (if j < length (timeouts st) \<and> to_due (timeouts st ! j) \<le> clock st
      then Some (st\<lparr>uploadingFiles := filter (\<lambda>u. uf_id u \<noteq> to_fileId (timeouts st ! j)) (uploadingFiles st),
                    timeouts := take j (timeouts st) @ drop (Suc j) (timeouts st)\<rparr>)
      else None)"

definition removeFile :: "jsstring \<Rightarrow> state \<Rightarrow> state" where
  "removeFile fileId st =
     st\<lparr>uploadingFiles := filter (\<lambda>u. uf_id u \<noteq> fileId) (uploadingFiles st)\<rparr>"


definition allUploaded :: "UploadingFile list \<Rightarrow> bool" where
  "allUploaded ufs \<longleftrightarrow> length ufs > 0 \<and> list_all (\<lambda>u. status u = Complete) ufs"

subsection \<open>Runs of the component\<close>

text \<open>
  What can happen to the component: the user selects or drops files, an interval or a
  timeout callback runs, the user removes an entry, time passes. \<^verbatim>\<open>Math.random()\<close>
  returns a number in \<open>[0, 1)\<close>.
\<close>

datatype event =
    FileSelect "file_handle list option"
  | Tick nat real
  | TimeoutFires nat
  | RemoveFile jsstring
  | Advance nat

fun step :: "platform \<Rightarrow> event \<Rightarrow> state \<Rightarrow> state option" where
  "step pf (FileSelect files) st = Some (handleFileSelect files st)"
| "step pf (Tick i r) st = (if 0 \<le> r \<and> r < 1 then tick pf i r st else None)"
| "step pf (TimeoutFires j) st = fire_timeout j st"
| "step pf (RemoveFile fileId) st = Some (removeFile fileId st)"
| "step pf (Advance dt) st = Some (st\<lparr>clock := clock st + dt\<rparr>)"

fun run :: "platform \<Rightarrow> event list \<Rightarrow> state \<Rightarrow> state option" where
  "run pf [] st = Some st"
| "run pf (e # es) st = (case step pf e st of None \<Rightarrow> None | Some st' \<Rightarrow> run pf es st')"


fun removes_file :: "jsstring \<Rightarrow> event \<Rightarrow> state \<Rightarrow> bool" where
  "removes_file fileId (RemoveFile k) st \<longleftrightarrow> k = fileId"
| "removes_file fileId (TimeoutFires j) st \<longleftrightarrow>
     j < length (timeouts st) \<and> to_fileId (timeouts st ! j) = fileId"
| "removes_file fileId e st \<longleftrightarrow> False"

fun run_without :: "(event \<Rightarrow> state \<Rightarrow> bool) \<Rightarrow> platform \<Rightarrow> event list \<Rightarrow> state \<Rightarrow> state option" where
  "run_without bad pf [] st = Some st"
| "run_without bad pf (e # es) st =
     (if bad e st then None
      else case step pf e st of None \<Rightarrow> None | Some st' \<Rightarrow> run_without bad pf es st')"

definition initial :: "nat \<Rightarrow> storage \<Rightarrow> state" where
  "initial now ls =
     \<lparr>uploadingFiles = [], localStorage = ls, intervals = [], timeouts = [], clock = now,
      toasts = [], uncaught = []\<rparr>"


subsection \<open>Example data\<close>

definition example_file :: file_handle where
  "example_file = \<lparr>file_name = ustr ''a.txt'', file_type = ustr ''text/plain'', file_size = 10\<rparr>"

definition example_entry :: "real \<Rightarrow> upload_status \<Rightarrow> UploadingFile" where
  "example_entry p s =
     \<lparr>uf_id = ustr ''a.txt-1000'', uf_file = example_file, progress = p, status = s,
      uf_error = None\<rparr>"

definition example_state :: state where
  "example_state =
     \<lparr>uploadingFiles = [example_entry 100 Complete], localStorage = Map.empty, intervals = [],
      timeouts = [], clock = 1000, toasts = [], uncaught = []\<rparr>"

definition example_user :: json where
  "example_user =
     JObject [(ustr ''name'', JString (ustr ''A'')), (ustr ''email'', JString (ustr ''a@b.c'')),
              (ustr ''password'', JString (ustr ''pw'')), (ustr ''isLoggedIn'', JBool False)]"

definition example_user_text :: jsstring where
  "example_user_text =
     ustr ''{\"name\":\"A\",\"email\":\"a@b.c\",\"password\":\"pw\",\"isLoggedIn\":false}''"

definition example_store :: storage where
  "example_store = [''userData'' \<mapsto> example_user_text]"

definition example_user_text_after :: jsstring where
  "example_user_text_after = ustr ''{\"name\":\"A\",\"email\":\"a@b.c\",\"isLoggedIn\":true}''"

definition malformed_store :: storage where
  "malformed_store = [''userData'' \<mapsto> ustr ''not json'', ''uploadedFiles'' \<mapsto> ustr ''not json'']"

definition example_fileData :: fileData where
  "example_fileData =
     \<lparr>fd_id = ustr ''a.txt-1000'', fd_name = ustr ''a.txt'', fd_type = ustr ''text/plain'',
      fd_size = 10, modifiedAt = 1200, isFolder = False\<rparr>"

definition example_files_text :: jsstring where
  "example_files_text =
     ustr ''[{\"id\":\"a.txt-1000\",\"name\":\"a.txt\",\"type\":\"text/plain\",\"size\":10,\"modifiedAt\":\"1970-01-01T00:00:01.200Z\",\"isFolder\":false}]''"

definition example_interval :: "real \<Rightarrow> interval" where
  "example_interval p =
     \<lparr>iv_fileId = ustr ''a.txt-1000'', iv_file = example_file, iv_progress = p, iv_active = True,
      iv_due = 1200\<rparr>"

text \<open>
  The state 200 ms after \<^verbatim>\<open>a.txt\<close> was selected at time 1000 with an empty store, for
  \<open>p = 0\<close>; for other \<open>p\<close>, the same with the upload at progress \<open>p\<close>.
\<close>

definition ticking_state :: "real \<Rightarrow> state" where
  "ticking_state p =
     \<lparr>uploadingFiles = [example_entry p Uploading], localStorage = Map.empty,
      intervals = [example_interval p], timeouts = [], clock = 1200, toasts = [], uncaught = []\<rparr>"

text \<open>
  Stores in which the value under \<^verbatim>\<open>uploadedFiles\<close> is a string, and a sequence with
  a number beyond the range of the doubles.
\<close>

definition string_store :: storage where
  "string_store = [''uploadedFiles'' \<mapsto> ustr ''\"ab\"'']"

definition overflow_store :: storage where
  "overflow_store = [''uploadedFiles'' \<mapsto> ustr ''[1e400]'']"

definition example_record_text :: jsstring where
  "example_record_text =
     ustr ''{\"id\":\"a.txt-1000\",\"name\":\"a.txt\",\"type\":\"text/plain\",\"size\":10,\"modifiedAt\":\"1970-01-01T00:00:01.200Z\",\"isFolder\":false}''"

text \<open>
  The same file selected twice in one selection, so that both entries and both timers
  carry one id; then eleven ticks of the first timer, 200 ms apart, with
  \<^verbatim>\<open>Math.random()\<close> at \<open>15/16\<close> each time, which take it to 100.
\<close>

definition tick_first :: "event list" where
  "tick_first = [Advance 200, Tick 0 (15/16)]"


definition single_events :: "event list" where
  "single_events = FileSelect (Some [example_file]) # concat (replicate 11 tick_first)"



definition stuck_state :: state where
  "stuck_state =
     \<lparr>uploadingFiles = [example_entry 100 Complete], localStorage = malformed_store,
      intervals = [(example_interval 100)\<lparr>iv_active := False, iv_due := 3200\<rparr>], timeouts = [],
      clock = 3200, toasts = [], uncaught = [SyntaxError]\<rparr>"

section \<open>\<^verbatim>\<open>JSON.parse\<close> reads back what \<^verbatim>\<open>JSON.stringify\<close> writes\<close>

subsection \<open>Strings\<close>

lemma unat_small: "n < 65536 \<Longrightarrow> unat (of_nat n :: cu) = n"
  by (simp add: unat_of_nat)

lemma digit_char:
  assumes "n < 10"
  shows "is_digit (of_nat (48 + n))" "(of_nat (48 + n) :: cu) = cu CHR ''0'' \<longleftrightarrow> n = 0"
proof -
  have u: "unat (of_nat (48 + n) :: cu) = 48 + n" using assms unat_small [of "48 + n"] by simp
  show "is_digit (of_nat (48 + n))"
    using assms u by (simp add: is_digit_def word_le_nat_alt)
  have "(of_nat (48 + n) :: cu) = 48 \<longleftrightarrow> unat (of_nat (48 + n) :: cu) = unat (48 :: cu)"
    by (simp only: word_unat_eq_iff)
  then show "(of_nat (48 + n) :: cu) = cu CHR ''0'' \<longleftrightarrow> n = 0"
    using u by (simp add: cu_def)
qed

lemma hex_val_hex_digit: "k < 16 \<Longrightarrow> hex_val (hex_digit k) = Some k"
proof (cases "k < 10")
  case True
  then have "unat (of_nat (48 + k) :: cu) = 48 + k" using unat_small [of "48 + k"] by simp
  then show ?thesis
    using True digit_char(1) [OF True] by (simp add: hex_val_def hex_digit_def)
next
  case False
  assume "k < 16"
  then have u: "unat (of_nat (87 + k) :: cu) = 87 + k" using unat_small [of "87 + k"] by simp
  then show ?thesis
    using False \<open>k < 16\<close> by (simp add: hex_val_def hex_digit_def is_digit_def word_le_nat_alt)
qed

lemma hex4_hex4_print: "hex4_print c = [a, b, d, e] \<Longrightarrow> hex4 a b d e = Some c"
proof -
  assume h: "hex4_print c = [a, b, d, e]"
  define n where "n = unat c"
  have n: "n < 65536" unfolding n_def using unsigned_less [of c] by simp
  have eqs: "a = hex_digit (n div 4096)" "b = hex_digit (n div 256 mod 16)"
    "d = hex_digit (n div 16 mod 16)" "e = hex_digit (n mod 16)"
    using h by (simp_all add: hex4_print_def n_def Let_def)
  have 1: "n div 4096 < 16" using n by simp
  have a1: "n div 4096 = n div 256 div 16" and b1: "n div 256 = n div 16 div 16"
    by (simp_all add: div_mult2_eq [symmetric])
  have a: "n div 4096 * 16 + n div 256 mod 16 = n div 256"
    unfolding a1 by (rule div_mult_mod_eq)
  have b: "n div 256 * 16 + n div 16 mod 16 = n div 16"
    unfolding b1 by (rule div_mult_mod_eq)
  have 2: "((n div 4096 * 16 + n div 256 mod 16) * 16 + n div 16 mod 16) * 16 + n mod 16 = n"
    by (simp only: a b div_mult_mod_eq)
  have hv: "hex_val a = Some (n div 4096)" "hex_val b = Some (n div 256 mod 16)"
    "hex_val d = Some (n div 16 mod 16)" "hex_val e = Some (n mod 16)"
    by (simp_all add: eqs hex_val_hex_digit 1)
  have "hex4 a b d e = Some (of_nat n)"
    unfolding hex4_def hv by (simp only: prod.case option.case 2)
  then show ?thesis by (simp add: n_def)
qed

lemma parse_chars_escape_cu:
  "parse_chars (escape_cu c @ rest) = cons_result c (parse_chars rest)"
proof -
  consider (short) "c = 0x08 \<or> c = 0x09 \<or> c = 0x0A \<or> c = 0x0C \<or> c = 0x0D \<or> c = 0x22 \<or> c = 0x5C"
    | (u) "\<not> (c = 0x08 \<or> c = 0x09 \<or> c = 0x0A \<or> c = 0x0C \<or> c = 0x0D \<or> c = 0x22 \<or> c = 0x5C)"
          "c < 0x20 \<or> is_high c \<or> is_low c"
    | (raw) "\<not> (c = 0x08 \<or> c = 0x09 \<or> c = 0x0A \<or> c = 0x0C \<or> c = 0x0D \<or> c = 0x22 \<or> c = 0x5C)"
          "\<not> (c < 0x20 \<or> is_high c \<or> is_low c)"
    by blast
  then show ?thesis
  proof cases
    case short
    then show ?thesis
      by (elim disjE) (simp_all add: escape_cu_def ustr_def cu_def unescape_def cons_result_def)
  next
    case u
    obtain a b d e where p: "hex4_print c = [a, b, d, e]"
      by (simp add: hex4_print_def Let_def)
    from u show ?thesis
      by (simp add: escape_cu_def ustr_def cu_def p hex4_hex4_print [OF p])
  next
    case raw
    then show ?thesis
      by (simp add: escape_cu_def cu_def)
  qed
qed

lemma above_surrogate_floor:
  assumes "(0xD800::cu) \<le> c"
  shows "c \<noteq> 0x22 \<and> c \<noteq> 0x5C \<and> \<not> c < 0x20"
proof (intro conjI notI)
  assume "c = 0x22" with assms show False by simp
next
  assume "c = 0x5C" with assms show False by simp
next
  assume "c < 0x20"
  with assms have "(0xD800::cu) < 0x20" by (rule le_less_trans)
  then show False by simp
qed

lemma high_not_special: "is_high c \<Longrightarrow> c \<noteq> 0x22 \<and> c \<noteq> 0x5C \<and> \<not> c < 0x20"
  by (rule above_surrogate_floor) (simp add: is_high_def)

lemma low_not_special: "is_low c \<Longrightarrow> c \<noteq> 0x22 \<and> c \<noteq> 0x5C \<and> \<not> c < 0x20"
proof (rule above_surrogate_floor)
  assume "is_low c"
  then have "(0xDC00::cu) \<le> c" by (simp add: is_low_def)
  moreover have "(0xD800::cu) \<le> 0xDC00" by simp
  ultimately show "(0xD800::cu) \<le> c" by (rule order_trans [rotated])
qed

lemma parse_chars_quote_chars:
  "parse_chars (quote_chars s @ cu CHR ''\"'' # rest) = Some (s, rest)"
proof (induction s rule: quote_chars.induct)
  case 1
  show ?case by simp
next
  case (2 c)
  show ?case by (simp add: parse_chars_escape_cu cons_result_def)
next
  case (3 c d cs)
  show ?case
  proof (cases "is_high c \<and> is_low d")
    case True
    then show ?thesis
      using 3 high_not_special [of c] low_not_special [of d]
      by (simp add: cu_def cons_result_def)
  next
    case False
    then have eq: "quote_chars (c # d # cs) = escape_cu c @ quote_chars (d # cs)"
      by (cases "is_high c") simp_all
    have "parse_chars (quote_chars (d # cs) @ cu CHR ''\"'' # rest) = Some (d # cs, rest)"
      using False 3 by blast
    then show ?thesis
      by (simp only: eq append_assoc parse_chars_escape_cu) (simp add: cons_result_def)
  qed
qed

subsection \<open>Values\<close>

lemma skip_ws_not_ws: "\<not> is_ws c \<Longrightarrow> skip_ws (c # cs) = c # cs"
  by (simp add: skip_ws_def)

lemma number_ok_hd:
  assumes "number_ok l"
  shows "\<exists>c r. l = c # r \<and> (c = cu CHR ''-'' \<or> is_digit c)"
proof (cases l)
  case Nil
  with assms show ?thesis by (simp add: number_ok_def)
next
  case (Cons c r)
  show ?thesis
  proof (cases "c = cu CHR ''-''")
    case True
    with Cons show ?thesis by simp
  next
    case False
    have "is_digit (cu CHR ''0'')" by (simp add: is_digit_def cu_def)
    with assms Cons False have "is_digit c"
      by (auto simp: number_ok_def split: if_splits)
    with Cons show ?thesis by simp
  qed
qed

lemma digit_facts:
  assumes "is_digit c"
  shows "\<not> is_ws c" "c \<noteq> cu CHR '']''" "c \<noteq> cu CHR ''{''" "c \<noteq> cu CHR ''[''"
    "c \<noteq> cu CHR ''\"''" "c \<noteq> cu CHR ''t''" "c \<noteq> cu CHR ''f''" "c \<noteq> cu CHR ''n''"
  using assms by (auto simp: is_digit_def is_ws_def cu_def)

lemma parse_value_number:
  assumes "c = cu CHR ''-'' \<or> is_digit c"
  shows "parse_value (Suc m) (c # cs) = parse_number (c # cs)"
  using assms
proof
  assume "c = cu CHR ''-''"
  then show ?thesis by (simp add: skip_ws_def is_ws_def cu_def)
next
  assume d: "is_digit c"
  show ?thesis
    using digit_facts [OF d] by (simp add: skip_ws_not_ws)
qed

lemma parse_number_literal:
  assumes "number_ok l" "list_all is_num_char l" "rest = [] \<or> \<not> is_num_char (hd rest)"
  shows "parse_number (l @ rest) = Some (JNumber l, rest)"
proof -
  have all: "\<forall>x \<in> set l. is_num_char x" using assms(2) by (simp add: list_all_iff)
  have t: "takeWhile is_num_char (l @ rest) = l"
    using assms(3) all by (cases rest) (simp_all add: takeWhile_append2)
  have d: "dropWhile is_num_char (l @ rest) = rest"
    using assms(3) all by (cases rest) (simp_all add: dropWhile_append2)
  show ?thesis by (simp add: parse_number_def t d assms(1))
qed

lemma stringify_hd:
  assumes "wf_json v"
  shows "\<exists>c cs. stringify v = c # cs \<and> \<not> is_ws c \<and> c \<noteq> cu CHR '']''"
proof (cases v)
  case (JNumber l)
  with assms have "number_ok l" by simp
  then obtain c r where l: "l = c # r" and c: "c = cu CHR ''-'' \<or> is_digit c"
    using number_ok_hd [of l] by blast
  from c have "\<not> is_ws c \<and> c \<noteq> cu CHR '']''"
    using digit_facts(1,2) [of c] by (auto simp: is_ws_def cu_def)
  with JNumber l show ?thesis by simp
qed (simp_all add: ustr_def cu_def is_ws_def quote_def)

lemma skip_ws_stringify: "wf_json v \<Longrightarrow> skip_ws (stringify v @ r) = stringify v @ r"
  using stringify_hd [of v] by (auto simp: skip_ws_def)

lemma not_num_char: "\<not> is_num_char (cu CHR '','')" "\<not> is_num_char (cu CHR '']'')"
  "\<not> is_num_char (cu CHR ''}'')"
  by (simp_all add: is_num_char_def is_digit_def cu_def)

lemma parse_literal_exact: "parse_literal w v (ustr w @ rest) = Some (v, rest)"
  by (simp add: parse_literal_def strip_prefix_def ustr_def)

lemma parse_value_atoms:
  "parse_value (Suc m) (ustr ''null'' @ rest) = Some (JNull, rest)"
  "parse_value (Suc m) (ustr ''true'' @ rest) = Some (JBool True, rest)"
  "parse_value (Suc m) (ustr ''false'' @ rest) = Some (JBool False, rest)"
proof -
  have "parse_value (Suc m) (ustr ''null'' @ rest) = parse_literal ''null'' JNull (ustr ''null'' @ rest)"
    by (simp add: ustr_def skip_ws_def is_ws_def cu_def)
  then show "parse_value (Suc m) (ustr ''null'' @ rest) = Some (JNull, rest)"
    by (simp only: parse_literal_exact)
  have "parse_value (Suc m) (ustr ''true'' @ rest) = parse_literal ''true'' (JBool True) (ustr ''true'' @ rest)"
    by (simp add: ustr_def skip_ws_def is_ws_def cu_def)
  then show "parse_value (Suc m) (ustr ''true'' @ rest) = Some (JBool True, rest)"
    by (simp only: parse_literal_exact)
  have "parse_value (Suc m) (ustr ''false'' @ rest) = parse_literal ''false'' (JBool False) (ustr ''false'' @ rest)"
    by (simp add: ustr_def skip_ws_def is_ws_def cu_def)
  then show "parse_value (Suc m) (ustr ''false'' @ rest) = Some (JBool False, rest)"
    by (simp only: parse_literal_exact)
qed

lemma parse_value_string:
  "parse_value (Suc m) (quote s @ rest) = Some (JString s, rest)"
proof -
  have "parse_value (Suc m) (cu CHR ''\"'' # quote_chars s @ cu CHR ''\"'' # rest)
        = (case parse_chars (quote_chars s @ cu CHR ''\"'' # rest) of
             None \<Rightarrow> None | Some (str, r) \<Rightarrow> Some (JString str, r))"
    by (simp add: skip_ws_def is_ws_def cu_def)
  then show ?thesis
    by (simp add: quote_def parse_chars_quote_chars)
qed

lemma parse_value_array:
  "parse_value (Suc m) (cu CHR ''['' # cs) =
     (case skip_ws cs of
        [] \<Rightarrow> None
      | d # ds \<Rightarrow> if d = cu CHR '']'' then Some (JArray [], ds) else parse_elements m cs [])"
  by (simp add: skip_ws_def is_ws_def cu_def)

lemma parse_value_object:
  "parse_value (Suc m) (cu CHR ''{'' # cs) =
     (case skip_ws cs of
        [] \<Rightarrow> None
      | d # ds \<Rightarrow> if d = cu CHR ''}'' then Some (JObject [], ds) else parse_members m cs [])"
  by (simp add: skip_ws_def is_ws_def cu_def)

lemma parse_members_quote:
  "parse_members (Suc m) (quote k @ cu CHR '':'' # s3) acc =
     (case parse_value m s3 of
        None \<Rightarrow> None
      | Some (v, s4) \<Rightarrow>
          (case skip_ws s4 of
             [] \<Rightarrow> None
           | d # s5 \<Rightarrow>
               if d = cu CHR '','' then parse_members m s5 (obj_put acc k v)
               else if d = cu CHR ''}'' then Some (JObject (obj_put acc k v), s5)
               else None))"
proof -
  have q: "quote k @ cu CHR '':'' # s3 = cu CHR ''\"'' # (quote_chars k @ cu CHR ''\"'' # cu CHR '':'' # s3)"
    by (simp add: quote_def)
  have w1: "skip_ws (cu CHR ''\"'' # x) = cu CHR ''\"'' # x" for x
    by (simp add: skip_ws_def is_ws_def cu_def)
  have w2: "skip_ws (cu CHR '':'' # x) = cu CHR '':'' # x" for x
    by (simp add: skip_ws_def is_ws_def cu_def)
  show ?thesis
    unfolding q by (simp add: w1 w2 parse_chars_quote_chars)
qed

lemma skip_ws_punct:
  "skip_ws (cu CHR '','' # x) = cu CHR '','' # x"
  "skip_ws (cu CHR '']'' # x) = cu CHR '']'' # x"
  "skip_ws (cu CHR ''}'' # x) = cu CHR ''}'' # x"
  by (simp_all add: skip_ws_def is_ws_def cu_def)

lemma punct_neq: "cu CHR '']'' \<noteq> cu CHR '',''" "cu CHR ''}'' \<noteq> cu CHR '',''"
  "cu CHR ''\"'' \<noteq> cu CHR ''}''" "\<not> is_ws (cu CHR ''\"'')"
  by (simp_all add: cu_def is_ws_def)

declare parse_value.simps [simp del] parse_elements.simps [simp del] parse_members.simps [simp del]

lemma parse_stringify:
  "wf_json v \<Longrightarrow> length (stringify v) < n \<Longrightarrow> rest = [] \<or> \<not> is_num_char (hd rest)
     \<Longrightarrow> parse_value n (stringify v @ rest) = Some (rebuild v, rest)"
  "vs \<noteq> [] \<Longrightarrow> wf_elements vs \<Longrightarrow> length (stringify_elements vs) < n
     \<Longrightarrow> parse_elements n (stringify_elements vs @ rest) acc
         = Some (JArray (acc @ rebuild_elements vs), rest)"
  "kvs \<noteq> [] \<Longrightarrow> wf_members kvs \<Longrightarrow> length (stringify_members kvs) < n
     \<Longrightarrow> parse_members n (stringify_members kvs @ rest) macc
         = Some (JObject (rebuild_members kvs macc), rest)"
proof (induction v and vs and kvs arbitrary: n rest and n rest acc and n rest macc
        rule: stringify_stringify_elements_stringify_members.induct)
  case 1
  then obtain m where "n = Suc m" by (cases n) auto
  then show ?case by (simp add: parse_value_atoms)
next
  case (2 b)
  then obtain m where "n = Suc m" by (cases n) auto
  then show ?case by (simp add: parse_value_atoms)
next
  case (3 l)
  then obtain m where n: "n = Suc m" by (cases n) auto
  from 3 have ok: "number_ok l" "list_all is_num_char l" by simp_all
  obtain c r where l: "l = c # r" and c: "c = cu CHR ''-'' \<or> is_digit c"
    using number_ok_hd [OF ok(1)] by blast
  have "parse_value (Suc m) (l @ rest) = parse_number (l @ rest)"
    unfolding l using parse_value_number [OF c] by simp
  then show ?case
    using parse_number_literal [OF ok "3.prems"(3)] n by simp
next
  case (4 s)
  then obtain m where "n = Suc m" by (cases n) auto
  then show ?case by (simp add: parse_value_string)
next
  case (5 vs)
  then obtain m where n: "n = Suc m" by (cases n) auto
  show ?case
  proof (cases vs)
    case Nil
    then show ?thesis by (simp add: n parse_value_array skip_ws_punct)
  next
    case (Cons v vs')
    then have wf: "wf_json v" using "5.prems" by simp
    have ne: "vs \<noteq> []" using Cons by simp
    obtain x where x: "stringify_elements vs = stringify v @ x"
      using Cons by (cases vs') auto
    obtain c cs where h: "stringify v = c # cs" "\<not> is_ws c" "c \<noteq> cu CHR '']''"
      using stringify_hd [OF wf] by blast
    have sk: "skip_ws (stringify_elements vs @ rest) = c # (cs @ x @ rest)"
      by (simp add: x h skip_ws_not_ws)
    have "parse_value (Suc m) (cu CHR ''['' # stringify_elements vs @ rest)
          = parse_elements m (stringify_elements vs @ rest) []"
      by (simp only: parse_value_array sk list.case h if_False)
    moreover have "parse_elements m (stringify_elements vs @ rest) []
          = Some (JArray ([] @ rebuild_elements vs), rest)"
      using "5.prems" n by (intro "5.IH" ne) simp_all
    ultimately show ?thesis by (simp add: n)
  qed
next
  case (6 kvs)
  then obtain m where n: "n = Suc m" by (cases n) auto
  show ?case
  proof (cases kvs)
    case Nil
    then show ?thesis by (simp add: n parse_value_object skip_ws_punct)
  next
    case (Cons kv kvs')
    have ne: "kvs \<noteq> []" using Cons by simp
    obtain x where x: "stringify_members kvs = cu CHR ''\"'' # x"
      using Cons by (cases kv; cases kvs') (auto simp: quote_def)
    have sk: "skip_ws (stringify_members kvs @ rest) = cu CHR ''\"'' # (x @ rest)"
      by (simp add: x skip_ws_not_ws punct_neq)
    have "parse_value (Suc m) (cu CHR ''{'' # stringify_members kvs @ rest)
          = parse_members m (stringify_members kvs @ rest) []"
      by (simp only: parse_value_object sk list.case punct_neq if_False)
    moreover have "parse_members m (stringify_members kvs @ rest) []
          = Some (JObject (rebuild_members kvs []), rest)"
      using "6.prems" n by (intro "6.IH" ne) simp_all
    ultimately show ?thesis by (simp add: n)
  qed
next
  case 7
  then show ?case by simp
next
  case (8 v)
  then obtain m where n: "n = Suc m" by (cases n) auto
  have "parse_value m (stringify v @ cu CHR '']'' # rest) = Some (rebuild v, cu CHR '']'' # rest)"
    using "8.prems" n by (intro "8.IH") (simp_all add: not_num_char)
  then show ?case
    by (simp add: n parse_elements.simps skip_ws_punct punct_neq)
next
  case (9 v w vs)
  then obtain m where n: "n = Suc m" by (cases n) auto
  have "parse_value m (stringify v @ cu CHR '','' # stringify_elements (w # vs) @ rest)
        = Some (rebuild v, cu CHR '','' # stringify_elements (w # vs) @ rest)"
    using "9.prems" n by (intro "9.IH"(1)) (simp_all add: not_num_char)
  moreover have "parse_elements m (stringify_elements (w # vs) @ rest) (acc @ [rebuild v])
        = Some (JArray ((acc @ [rebuild v]) @ rebuild_elements (w # vs)), rest)"
    using "9.prems" n by (intro "9.IH"(2)) simp_all
  ultimately show ?case
    by (simp add: n parse_elements.simps skip_ws_punct)
next
  case 10
  then show ?case by simp
next
  case (11 k v)
  then obtain m where n: "n = Suc m" by (cases n) auto
  have "parse_value m (stringify v @ cu CHR ''}'' # rest) = Some (rebuild v, cu CHR ''}'' # rest)"
    using "11.prems" n by (intro "11.IH") (simp_all add: not_num_char)
  then show ?case
    by (simp add: n parse_members_quote skip_ws_punct punct_neq)
next
  case (12 k v kv kvs)
  then obtain m where n: "n = Suc m" by (cases n) auto
  have "parse_value m (stringify v @ cu CHR '','' # stringify_members (kv # kvs) @ rest)
        = Some (rebuild v, cu CHR '','' # stringify_members (kv # kvs) @ rest)"
    using "12.prems" n by (intro "12.IH"(1)) (simp_all add: not_num_char)
  moreover have "parse_members m (stringify_members (kv # kvs) @ rest) (obj_put macc k (rebuild v))
        = Some (JObject (rebuild_members (kv # kvs) (obj_put macc k (rebuild v))), rest)"
    using "12.prems" n by (intro "12.IH"(2)) simp_all
  ultimately show ?case
    by (simp add: n parse_members_quote skip_ws_punct)
qed

lemma JSON_parse_stringify: "wf_json v \<Longrightarrow> JSON_parse (stringify v) = Inr (rebuild v)"
  using parse_stringify(1) [of v "Suc (length (stringify v))" "[]"]
  by (simp add: JSON_parse_def skip_ws_def)

subsection \<open>Property order\<close>

lemma digit_roundtrip: "is_digit d \<Longrightarrow> (of_nat (48 + (unat d - 48)) :: cu) = d \<and> unat d - 48 < 10"
proof -
  assume d: "is_digit d"
  then have "48 \<le> unat d" "unat d \<le> 57"
    by (simp_all add: is_digit_def word_le_nat_alt)
  then show ?thesis by simp
qed

lemma digits_val_snoc: "digits_val (ds @ [d]) = digits_val ds * 10 + (unat d - 48)"
  by (simp add: digits_val_def)

lemma show_nat_digits_val:
  "ds \<noteq> [] \<Longrightarrow> list_all is_digit ds \<Longrightarrow> hd ds \<noteq> cu CHR ''0''
     \<Longrightarrow> show_nat (digits_val ds) = ds \<and> 0 < digits_val ds"
proof (induction ds rule: rev_induct)
  case Nil
  then show ?case by simp
next
  case (snoc d ds)
  then have d: "is_digit d" by simp
  note dr = digit_roundtrip [OF d]
  show ?case
  proof (cases "ds = []")
    case True
    have "unat d \<noteq> 48"
    proof
      assume "unat d = 48"
      moreover have "d = of_nat (unat d)" by simp
      ultimately have "d = 48" by simp
      with snoc.prems True show False by (simp add: cu_def)
    qed
    moreover have "48 \<le> unat d" using d by (simp add: is_digit_def word_le_nat_alt)
    ultimately have pos: "0 < unat d - 48" by simp
    show ?thesis
      using True dr pos by (simp add: digits_val_def show_nat.simps)
  next
    case False
    with snoc have ih: "show_nat (digits_val ds) = ds" "0 < digits_val ds"
      by simp_all
    let ?n = "digits_val ds * 10 + (unat d - 48)"
    have "\<not> ?n < 10" using ih(2) by simp
    moreover have "?n div 10 = digits_val ds" "?n mod 10 = unat d - 48"
      using dr by simp_all
    ultimately have "show_nat ?n = ds @ [d]"
      using dr ih(1) by (subst show_nat.simps) simp
    then show ?thesis using ih(2) by (simp add: digits_val_snoc)
  qed
qed

lemma array_index_show_nat: "array_index k = Some i \<Longrightarrow> k = show_nat i"
proof (cases k)
  case Nil
  assume "array_index k = Some i"
  with Nil show ?thesis by (simp add: array_index_def)
next
  case (Cons c cs)
  assume a: "array_index k = Some i"
  show ?thesis
  proof (cases "c = cu CHR ''0''")
    case True
    with a Cons have "cs = []" "i = 0" by (auto simp: array_index_def split: if_splits)
    with True Cons show ?thesis by (simp add: show_nat.simps cu_def)
  next
    case False
    with a Cons have "is_digit c" "list_all is_digit cs" "i = digits_val k"
      by (auto simp: array_index_def split: if_splits)
    then show ?thesis
      using show_nat_digits_val [of k] Cons False by simp
  qed
qed

lemma array_index_inj: "array_index k = Some i \<Longrightarrow> array_index k' = Some i \<Longrightarrow> k = k'"
proof -
  assume "array_index k = Some i" "array_index k' = Some i"
  then have "k = show_nat i" "k' = show_nat i" by (simp_all add: array_index_show_nat)
  then show ?thesis by simp
qed

lemma keys_replace_prop: "map fst (replace_prop k v kvs) = map fst kvs"
  by (induction kvs) auto

lemma keys_insert_index: "set (map fst (insert_index i k v kvs)) = insert k (set (map fst kvs))"
proof (induction kvs)
  case Nil
  show ?case by simp
next
  case (Cons kv kvs)
  obtain k' v' where kv: "kv = (k', v')" by (cases kv)
  show ?case
  proof (cases "array_index k'")
    case None
    then show ?thesis by (simp add: kv)
  next
    case (Some j)
    then show ?thesis using Cons.IH by (cases "j < i") (simp_all add: kv insert_commute)
  qed
qed

lemma key_before_no_index:
  "array_index k = None \<Longrightarrow> key_before k x \<Longrightarrow> array_index x = None"
  by (auto simp: key_before_def split: option.splits)

lemma ordered_insert_index:
  assumes "array_index k = Some i" "k \<notin> set (map fst kvs)" "sorted_wrt key_before (map fst kvs)"
  shows "sorted_wrt key_before (map fst (insert_index i k v kvs))"
  using assms(2,3)
proof (induction kvs)
  case Nil
  show ?case by simp
next
  case (Cons kv kvs)
  obtain k' v' where kv: "kv = (k', v')" by (cases kv)
  from Cons.prems kv have ne: "k \<noteq> k'" and nin: "k \<notin> set (map fst kvs)"
    and after: "\<forall>x \<in> set (map fst kvs). key_before k' x"
    and rest: "sorted_wrt key_before (map fst kvs)"
    by auto
  show ?case
  proof (cases "array_index k'")
    case None
    have "\<forall>x \<in> set (map fst kvs). array_index x = None"
      using after None by (auto dest: key_before_no_index)
    then have "\<forall>x \<in> set (map fst kvs). key_before k x"
      using nin by (auto simp: key_before_def)
    moreover have "key_before k k'" using ne None by (simp add: key_before_def)
    ultimately show ?thesis
      using None kv Cons.prems by simp
  next
    case (Some j)
    show ?thesis
    proof (cases "j < i")
      case True
      have "key_before k' k" using ne True Some assms(1) by (simp add: key_before_def)
      then have "\<forall>x \<in> set (map fst (insert_index i k v kvs)). key_before k' x"
        using after by (simp add: keys_insert_index del: set_map)
      then show ?thesis
        using True Some kv Cons.IH [OF nin rest] by simp
    next
      case False
      have "j \<noteq> i" using array_index_inj [OF assms(1), of k'] Some ne by auto
      with False have ij: "i < j" by simp
      then have kk': "key_before k k'" using ne Some assms(1) by (simp add: key_before_def)
      have "key_before k x" if "x \<in> set (map fst kvs)" for x
      proof -
        from that after have b: "key_before k' x" by blast
        from that nin have "k \<noteq> x" by auto
        then show ?thesis
          using b Some assms(1) ij by (auto simp: key_before_def split: option.splits)
      qed
      then show ?thesis
        using False Some kv kk' Cons.prems by simp
    qed
  qed
qed

lemma ordered_obj_put:
  assumes "sorted_wrt key_before (map fst kvs)"
  shows "sorted_wrt key_before (map fst (obj_put kvs k v))"
proof (cases "k \<in> fst ` set kvs")
  case True
  then show ?thesis using assms by (simp add: obj_put_def keys_replace_prop)
next
  case False
  show ?thesis
  proof (cases "array_index k")
    case None
    have "\<forall>x \<in> set kvs. key_before (fst x) k"
      using False None by (auto simp: key_before_def)
    then show ?thesis
      using False None assms by (simp add: obj_put_def sorted_wrt_append)
  next
    case (Some i)
    then show ?thesis
      using False assms ordered_insert_index [OF Some _ assms, of v] by (simp add: obj_put_def)
  qed
qed

lemma insert_index_last:
  "\<forall>x \<in> set kvs. \<exists>j. array_index (fst x) = Some j \<and> j < i \<Longrightarrow> insert_index i k v kvs = kvs @ [(k, v)]"
  by (induction kvs) auto

lemma obj_put_last:
  assumes "sorted_wrt key_before (map fst (kvs @ [(k, v)]))"
  shows "obj_put kvs k v = kvs @ [(k, v)]"
proof -
  from assms have b: "\<forall>x \<in> set kvs. key_before (fst x) k"
    by (simp add: sorted_wrt_append)
  then have nin: "k \<notin> fst ` set kvs" by (auto simp: key_before_def)
  show ?thesis
  proof (cases "array_index k")
    case None
    with nin show ?thesis by (simp add: obj_put_def)
  next
    case (Some i)
    have "\<forall>x \<in> set kvs. \<exists>j. array_index (fst x) = Some j \<and> j < i"
      using b Some by (auto simp: key_before_def split: option.splits)
    then show ?thesis using nin Some by (simp add: obj_put_def insert_index_last)
  qed
qed

lemma rebuild_members_ordered:
  "sorted_wrt key_before (map fst (acc @ kvs)) \<Longrightarrow> \<forall>x \<in> set kvs. rebuild (snd x) = snd x
     \<Longrightarrow> rebuild_members kvs acc = acc @ kvs"
proof (induction kvs arbitrary: acc)
  case Nil
  show ?case by simp
next
  case (Cons kv kvs)
  obtain k v where kv: "kv = (k, v)" by (cases kv)
  have v: "rebuild v = v" using Cons.prems(2) kv by simp
  have s1: "sorted_wrt key_before (map fst (acc @ [(k, v)]))"
    using Cons.prems(1) kv by (simp add: sorted_wrt_append)
  have "rebuild_members (kv # kvs) acc = rebuild_members kvs (acc @ [(k, v)])"
    by (simp add: kv v obj_put_last [OF s1])
  also have "\<dots> = (acc @ [(k, v)]) @ kvs"
    using Cons.prems kv by (intro Cons.IH) simp_all
  finally show ?case by (simp add: kv)
qed

lemma rebuild_wf:
  "wf_json v \<Longrightarrow> rebuild v = v"
  "wf_elements vs \<Longrightarrow> rebuild_elements vs = vs"
  "wf_members kvs \<Longrightarrow> \<forall>x \<in> set kvs. rebuild (snd x) = snd x"
proof (induction v and vs and kvs rule: wf_json_wf_elements_wf_members.induct)
  case (6 kvs)
  then have "\<forall>x \<in> set kvs. rebuild (snd x) = snd x" by simp
  moreover have "sorted_wrt key_before (map fst ([] @ kvs))" using 6 by simp
  ultimately have "rebuild_members kvs [] = [] @ kvs" by (rule rebuild_members_ordered [rotated])
  then show ?case by simp
qed auto

lemma JSON_parse_stringify_wf: "wf_json v \<Longrightarrow> JSON_parse (stringify v) = Inr v"
  by (simp add: JSON_parse_stringify rebuild_wf)

subsection \<open>What \<open>JSON_parse\<close> returns is well formed\<close>

lemma wf_elements_snoc: "wf_elements (acc @ [v]) \<longleftrightarrow> wf_elements acc \<and> wf_json v"
  by (induction acc) auto

lemma wf_members_snoc: "wf_members (acc @ [(k, v)]) \<longleftrightarrow> wf_members acc \<and> wf_json v"
  by (induction acc) auto

lemma wf_replace_prop: "wf_members acc \<Longrightarrow> wf_json v \<Longrightarrow> wf_members (replace_prop k v acc)"
  by (induction acc) auto

lemma wf_insert_index: "wf_members acc \<Longrightarrow> wf_json v \<Longrightarrow> wf_members (insert_index i k v acc)"
  by (induction acc) (auto split: option.splits)

lemma wf_obj_put: "wf_members acc \<Longrightarrow> wf_json v \<Longrightarrow> wf_members (obj_put acc k v)"
  by (simp add: obj_put_def wf_replace_prop wf_insert_index wf_members_snoc split: option.splits)

lemma wf_parse_number: "parse_number s = Some (v, r) \<Longrightarrow> wf_json v"
  by (auto simp: parse_number_def Let_def list_all_iff split: if_splits dest: set_takeWhileD)

lemma wf_parse_literal: "parse_literal w x s = Some (v, r) \<Longrightarrow> wf_json x \<Longrightarrow> wf_json v"
  by (auto simp: parse_literal_def split: option.splits)

lemma parse_wf:
  "(\<forall>s v r. parse_value n s = Some (v, r) \<longrightarrow> wf_json v)
   \<and> (\<forall>s acc v r. wf_elements acc \<longrightarrow> parse_elements n s acc = Some (v, r) \<longrightarrow> wf_json v)
   \<and> (\<forall>s acc v r. wf_json (JObject acc) \<longrightarrow> parse_members n s acc = Some (v, r) \<longrightarrow> wf_json v)"
proof (induction n)
  case 0
  show ?case by (simp add: parse_value.simps parse_elements.simps parse_members.simps)
next
  case (Suc n)
  then have IHv: "\<And>s v r. parse_value n s = Some (v, r) \<Longrightarrow> wf_json v"
    and IHe: "\<And>s acc v r. wf_elements acc \<Longrightarrow> parse_elements n s acc = Some (v, r) \<Longrightarrow> wf_json v"
    and IHm: "\<And>s acc v r. wf_json (JObject acc) \<Longrightarrow> parse_members n s acc = Some (v, r) \<Longrightarrow> wf_json v"
    by blast+
  have v: "wf_json v" if "parse_value (Suc n) s = Some (v, r)" for s v r
    using that IHe [of "[]"] IHm [of "[]"]
    by (auto simp: parse_value.simps split: list.splits if_splits option.splits
          dest: wf_parse_number wf_parse_literal; blast)
  have e: "wf_json v" if "wf_elements acc" "parse_elements (Suc n) s acc = Some (v, r)" for s acc v r
    using that IHv IHe [of "acc @ [x]" for x]
    by (auto simp: parse_elements.simps wf_elements_snoc split: list.splits if_splits option.splits; blast)
  have m: "wf_json v" if "wf_json (JObject acc)" "parse_members (Suc n) s acc = Some (v, r)" for s acc v r
    using that IHv IHm [of "obj_put acc k x" for k x]
    by (auto simp: parse_members.simps wf_obj_put ordered_obj_put
          split: list.splits if_splits option.splits;
        blast intro: wf_obj_put ordered_obj_put)
  show ?case using v e m by blast
qed

lemma JSON_parse_wf: "JSON_parse s = Inr v \<Longrightarrow> wf_json v"
proof -
  assume "JSON_parse s = Inr v"
  then obtain r where "parse_value (Suc (length s)) s = Some (v, r)"
    by (auto simp: JSON_parse_def split: option.splits if_splits)
  then show ?thesis using parse_wf [of "Suc (length s)"] by blast
qed

subsection \<open>The depth bound of \<open>JSON_parse\<close> is enough\<close>

text \<open>
  A parse that succeeds at some depth succeeds at every depth above the number of
  characters it consumes, so \<open>JSON_parse\<close> rejects no text for lack of depth.
\<close>

lemma skip_ws_length: "length (skip_ws s) \<le> length s"
  by (simp add: skip_ws_def length_dropWhile_le)

lemma skip_ws_Cons_length: "skip_ws s = c # cs \<Longrightarrow> length cs < length s"
  using skip_ws_length [of s] by simp

lemma cons_result_Some: "cons_result c x = Some (k, r) \<Longrightarrow> \<exists>k'. x = Some (k', r)"
  by (auto simp: cons_result_def split: option.splits)

lemma parse_chars_shorter: "parse_chars s = Some (k, r) \<Longrightarrow> length r < length s"
proof (induction s arbitrary: k rule: parse_chars.induct)
  case 1
  then show ?case by simp
next
  case (2 c cs)
  show ?case
  proof (cases "c = cu CHR ''\"''")
    case True
    with "2.prems" show ?thesis by simp
  next
    case nq: False
    show ?thesis
    proof (cases "c = cu CHR 0x5C")
      case bs: True
      show ?thesis
      proof (cases cs)
        case Nil
        with "2.prems" nq bs show ?thesis by simp
      next
        case (Cons e es)
        show ?thesis
        proof (cases "e = cu CHR ''u''")
          case True
          with "2.prems" nq bs Cons obtain h1 h2 h3 h4 rest u k'
            where es: "es = h1 # h2 # h3 # h4 # rest" and h: "hex4 h1 h2 h3 h4 = Some u"
              and p: "parse_chars rest = Some (k', r)"
            by (auto split: list.splits option.splits dest!: cons_result_Some)
          have "length r < length rest"
            using "2.IH"(1) nq bs Cons True es h p by blast
          then show ?thesis
            by (simp add: Cons es)
        next
          case False
          with "2.prems" nq bs Cons obtain u k' where u: "unescape e = Some u"
              and p: "parse_chars es = Some (k', r)"
            by (auto split: option.splits dest!: cons_result_Some)
          from "2.IH"(2) [OF nq bs Cons False u p] show ?thesis
            by (simp add: Cons)
        qed
      qed
    next
      case nb: False
      with "2.prems" nq obtain k' where lt: "\<not> c < 0x20" and p: "parse_chars cs = Some (k', r)"
        by (auto split: if_splits dest!: cons_result_Some)
      from "2.IH"(3) [OF nq nb lt p] show ?thesis by simp
    qed
  qed
qed

lemma parse_number_shorter: "parse_number s = Some (v, r) \<Longrightarrow> length r < length s"
proof -
  assume a: "parse_number s = Some (v, r)"
  then have ok: "number_ok (takeWhile is_num_char s)" and r: "r = dropWhile is_num_char s"
    by (auto simp: parse_number_def Let_def split: if_splits)
  from ok have "takeWhile is_num_char s \<noteq> []" by (auto simp: number_ok_def)
  moreover have "length (takeWhile is_num_char s) + length (dropWhile is_num_char s) = length s"
    by (metis length_append takeWhile_dropWhile_id)
  ultimately show ?thesis using r by (cases "takeWhile is_num_char s") simp_all
qed

lemma parse_literal_shorter:
  "parse_literal w x s = Some (v, r) \<Longrightarrow> w \<noteq> [] \<Longrightarrow> length r < length s"
proof -
  assume a: "parse_literal w x s = Some (v, r)" and w: "w \<noteq> []"
  then have t: "take (length (ustr w)) s = ustr w" and r: "r = drop (length (ustr w)) s"
    by (auto simp: parse_literal_def strip_prefix_def split: option.splits if_splits)
  have "length (ustr w) = length w" by (simp add: ustr_def)
  moreover from t have "length (ustr w) \<le> length s"
    by (metis length_take min.cobounded1 min.commute)
  ultimately show ?thesis using r w by (cases w) simp_all
qed


lemma fuel_enough:
  "(\<forall>s v r. parse_value n s = Some (v, r) \<longrightarrow>
       length r < length s \<and> (\<forall>m. length s - length r < m \<longrightarrow> parse_value m s = Some (v, r)))
   \<and> (\<forall>s acc v r. parse_elements n s acc = Some (v, r) \<longrightarrow>
       length r < length s \<and> (\<forall>m. length s - length r < m \<longrightarrow> parse_elements m s acc = Some (v, r)))
   \<and> (\<forall>s acc v r. parse_members n s acc = Some (v, r) \<longrightarrow>
       length r < length s \<and> (\<forall>m. length s - length r < m \<longrightarrow> parse_members m s acc = Some (v, r)))"
proof (induction n)
  case 0
  show ?case by (simp add: parse_value.simps parse_elements.simps parse_members.simps)
next
  case (Suc n)
  then have IHv: "\<And>s v r. parse_value n s = Some (v, r) \<Longrightarrow>
       length r < length s \<and> (\<forall>m. length s - length r < m \<longrightarrow> parse_value m s = Some (v, r))"
    and IHe: "\<And>s acc v r. parse_elements n s acc = Some (v, r) \<Longrightarrow>
       length r < length s \<and> (\<forall>m. length s - length r < m \<longrightarrow> parse_elements m s acc = Some (v, r))"
    and IHm: "\<And>s acc v r. parse_members n s acc = Some (v, r) \<Longrightarrow>
       length r < length s \<and> (\<forall>m. length s - length r < m \<longrightarrow> parse_members m s acc = Some (v, r))"
    by blast+
  have v: "length r < length s \<and> (\<forall>m. length s - length r < m \<longrightarrow> parse_value m s = Some (v, r))"
    if pv: "parse_value (Suc n) s = Some (v, r)" for s v r
  proof -
    obtain c cs where sk: "skip_ws s = c # cs"
      using pv by (auto simp: parse_value.simps split: list.splits)
    note l1 = skip_ws_Cons_length [OF sk]
    have l1': "length (c # cs) \<le> length s" using skip_ws_length [of s] sk by simp
    consider (obj) "c = cu CHR ''{''" | (arr) "c \<noteq> cu CHR ''{''" "c = cu CHR ''[''"
      | (other) "c \<noteq> cu CHR ''{''" "c \<noteq> cu CHR ''[''" by blast
    then show ?thesis
    proof cases
      case obj
      from pv sk obj obtain d ds where sk2: "skip_ws cs = d # ds"
        by (auto simp: parse_value.simps split: list.splits)
      note l2 = skip_ws_Cons_length [OF sk2]
      show ?thesis
      proof (cases "d = cu CHR ''}''")
        case True
        with pv sk obj sk2 have r: "r = ds"
          by (simp add: parse_value.simps)
        have "parse_value (Suc m') s = Some (v, r)" for m'
          using pv by (simp add: parse_value.simps sk obj sk2 True)
        then have "parse_value m s = Some (v, r)" if "0 < m" for m
          using that by (cases m) simp_all
        then show ?thesis using l1 l2 r by auto
      next
        case False
        with pv sk obj sk2 have pm: "parse_members n cs [] = Some (v, r)"
          by (simp add: parse_value.simps)
        from IHm [OF pm] have lr: "length r < length cs"
          and en: "\<And>m'. length cs - length r < m' \<Longrightarrow> parse_members m' cs [] = Some (v, r)"
          by blast+
        have eq: "parse_value (Suc m') s = parse_members m' cs []" for m'
          by (simp add: parse_value.simps sk obj sk2 False)
        have "parse_value m s = Some (v, r)" if "length s - length r < m" for m
        proof -
          from that obtain m' where m: "m = Suc m'" by (cases m) auto
          with that l1 lr have "length cs - length r < m'" by arith
          then show ?thesis by (simp add: m eq en)
        qed
        then show ?thesis using l1 lr by auto
      qed
    next
      case arr
      have bne: "cu CHR ''['' \<noteq> cu CHR ''{''" by (simp add: cu_def)
      from pv sk arr obtain d ds where sk2: "skip_ws cs = d # ds"
        by (auto simp: parse_value.simps bne split: list.splits)
      note l2 = skip_ws_Cons_length [OF sk2]
      show ?thesis
      proof (cases "d = cu CHR '']''")
        case True
        with pv sk arr sk2 have r: "r = ds"
          by (simp add: parse_value.simps bne)
        have "parse_value (Suc m') s = Some (v, r)" for m'
          using pv by (simp add: parse_value.simps sk arr sk2 True bne)
        then have "parse_value m s = Some (v, r)" if "0 < m" for m
          using that by (cases m) simp_all
        then show ?thesis using l1 l2 r by auto
      next
        case False
        with pv sk arr sk2 have pm: "parse_elements n cs [] = Some (v, r)"
          by (simp add: parse_value.simps bne)
        from IHe [OF pm] have lr: "length r < length cs"
          and en: "\<And>m'. length cs - length r < m' \<Longrightarrow> parse_elements m' cs [] = Some (v, r)"
          by blast+
        have eq: "parse_value (Suc m') s = parse_elements m' cs []" for m'
          by (simp add: parse_value.simps sk arr sk2 False bne)
        have "parse_value m s = Some (v, r)" if "length s - length r < m" for m
        proof -
          from that obtain m' where m: "m = Suc m'" by (cases m) auto
          with that l1 lr have "length cs - length r < m'" by arith
          then show ?thesis by (simp add: m eq en)
        qed
        then show ?thesis using l1 lr by auto
      qed
    next
      case other
      have eq: "parse_value (Suc m') s = parse_value (Suc n) s" for m'
        by (simp add: parse_value.simps sk other)
      then have en: "parse_value m s = Some (v, r)" if "0 < m" for m
        using that pv by (cases m) simp_all
      have "length r < length (c # cs)"
        using pv sk other
        by (auto simp: parse_value.simps split: if_splits option.splits
              dest!: parse_chars_shorter parse_literal_shorter parse_number_shorter)
      then have "length r < length s" using l1' by simp
      then show ?thesis using en by auto
    qed
  qed
  have e: "length r < length s \<and> (\<forall>m. length s - length r < m \<longrightarrow> parse_elements m s acc = Some (x, r))"
    if pe: "parse_elements (Suc n) s acc = Some (x, r)" for s acc x r
  proof -
    from pe obtain v1 r1 where pv: "parse_value n s = Some (v1, r1)"
      by (auto simp: parse_elements.simps split: option.splits)
    from IHv [OF pv] have l1: "length r1 < length s"
      and en1: "\<And>m'. length s - length r1 < m' \<Longrightarrow> parse_value m' s = Some (v1, r1)"
      by blast+
    from pe pv obtain c r' where sk: "skip_ws r1 = c # r'"
      by (auto simp: parse_elements.simps split: list.splits)
    note l2 = skip_ws_Cons_length [OF sk]
    show ?thesis
    proof (cases "c = cu CHR '',''")
      case True
      with pe pv sk have pr: "parse_elements n r' (acc @ [v1]) = Some (x, r)"
        by (simp add: parse_elements.simps)
      from IHe [OF pr] have l3: "length r < length r'"
        and en2: "\<And>m'. length r' - length r < m' \<Longrightarrow> parse_elements m' r' (acc @ [v1]) = Some (x, r)"
        by blast+
      have "parse_elements m s acc = Some (x, r)" if "length s - length r < m" for m
      proof -
        from that obtain m' where m: "m = Suc m'" by (cases m) auto
        with that l1 l2 l3 have a: "length s - length r1 < m'" and b: "length r' - length r < m'"
          by arith+
        show ?thesis
          by (simp add: m parse_elements.simps en1 [OF a] sk True en2 [OF b])
      qed
      then show ?thesis using l1 l2 l3 by auto
    next
      case False
      with pe pv sk have c: "c = cu CHR '']''" and r: "r = r'" and x: "x = JArray (acc @ [v1])"
        by (auto simp: parse_elements.simps split: if_splits)
      have "parse_elements m s acc = Some (x, r)" if "length s - length r < m" for m
      proof -
        from that obtain m' where m: "m = Suc m'" by (cases m) auto
        from that l1 l2 have a: "length s - length r1 < m'" unfolding m r by arith
        show ?thesis
          using False by (simp add: m parse_elements.simps en1 [OF a] sk c r x)
      qed
      then show ?thesis using l1 l2 r by auto
    qed
  qed
  have m: "length r < length s \<and> (\<forall>m. length s - length r < m \<longrightarrow> parse_members m s acc = Some (x, r))"
    if pm: "parse_members (Suc n) s acc = Some (x, r)" for s acc x r
  proof -
    from pm obtain q s1 where sk0: "skip_ws s = q # s1"
      by (auto simp: parse_members.simps split: list.splits)
    from pm sk0 have q: "q = cu CHR ''\"''"
      by (auto simp: parse_members.simps split: if_splits)
    from pm sk0 q obtain k s2 where pc: "parse_chars s1 = Some (k, s2)"
      by (auto simp: parse_members.simps split: option.splits)
    from pm sk0 q pc obtain c s3 where sk1: "skip_ws s2 = c # s3"
      by (auto simp: parse_members.simps split: list.splits)
    from pm sk0 q pc sk1 have c: "c = cu CHR '':''"
      by (auto simp: parse_members.simps split: if_splits)
    from pm sk0 q pc sk1 c obtain v1 s4 where pv: "parse_value n s3 = Some (v1, s4)"
      by (auto simp: parse_members.simps split: option.splits)
    from pm sk0 q pc sk1 c pv obtain d s5 where sk2: "skip_ws s4 = d # s5"
      by (auto simp: parse_members.simps split: list.splits)
    note l0 = skip_ws_Cons_length [OF sk0]
    note l1 = parse_chars_shorter [OF pc]
    note l2 = skip_ws_Cons_length [OF sk1]
    from IHv [OF pv] have l3: "length s4 < length s3"
      and en1: "\<And>m'. length s3 - length s4 < m' \<Longrightarrow> parse_value m' s3 = Some (v1, s4)"
      by blast+
    note l4 = skip_ws_Cons_length [OF sk2]
    show ?thesis
    proof (cases "d = cu CHR '',''")
      case True
      with pm sk0 q pc sk1 c pv sk2
      have pr: "parse_members n s5 (obj_put acc k v1) = Some (x, r)"
        by (simp add: parse_members.simps)
      from IHm [OF pr] have l5: "length r < length s5"
        and en2: "\<And>m'. length s5 - length r < m' \<Longrightarrow> parse_members m' s5 (obj_put acc k v1) = Some (x, r)"
        by blast+
      have "parse_members m s acc = Some (x, r)" if "length s - length r < m" for m
      proof -
        from that obtain m' where m: "m = Suc m'" by (cases m) auto
        with that l0 l1 l2 l3 l4 l5 have a: "length s3 - length s4 < m'" and b: "length s5 - length r < m'"
          by arith+
        show ?thesis
          by (simp add: m parse_members.simps sk0 q pc sk1 c en1 [OF a] sk2 True en2 [OF b])
      qed
      then show ?thesis using l0 l1 l2 l3 l4 l5 by auto
    next
      case False
      with pm sk0 q pc sk1 c pv sk2
      have d: "d = cu CHR ''}''" and r: "r = s5" and x: "x = JObject (obj_put acc k v1)"
        by (auto simp: parse_members.simps split: if_splits)
      have "parse_members m s acc = Some (x, r)" if "length s - length r < m" for m
      proof -
        from that obtain m' where m: "m = Suc m'" by (cases m) auto
        from that l0 l1 l2 l3 l4 have a: "length s3 - length s4 < m'" unfolding m r by arith
        show ?thesis
          using False by (simp add: m parse_members.simps sk0 q pc sk1 c en1 [OF a] sk2 d r x)
      qed
      then show ?thesis using l0 l1 l2 l3 l4 r by auto
    qed
  qed
  show ?case using v e m by blast
qed

lemma JSON_parse_fuel:
  "parse_value n s = Some (v, r) \<Longrightarrow> parse_value (Suc (length s)) s = Some (v, r)"
proof -
  assume a: "parse_value n s = Some (v, r)"
  with fuel_enough [of n] have "\<forall>m. length s - length r < m \<longrightarrow> parse_value m s = Some (v, r)"
    by blast
  moreover have "length s - length r < Suc (length s)" by simp
  ultimately show ?thesis by blast
qed

lemma JSON_parse_complete:
  "parse_value n s = Some (v, r) \<Longrightarrow> skip_ws r = [] \<Longrightarrow> JSON_parse s = Inr v"
  by (simp add: JSON_parse_def JSON_parse_fuel)

section \<open>What \<^verbatim>\<open>JSON.stringify\<close> writes for a number\<close>

lemma platform_laws: "number_format (number_text pf)" "rounding (double_of pf)"
  using Rep_platform [of pf] by (auto simp: number_text_def double_of_def split: prod.splits)

lemma number_text_plain: "plain_integer l \<Longrightarrow> number_text pf l = l"
  using platform_laws(1) [of pf] by (simp add: number_format_def)

lemma number_text_valid:
  "number_ok l \<Longrightarrow> list_all is_num_char l \<Longrightarrow>
     number_text pf l = ustr ''null''
     \<or> (number_ok (number_text pf l) \<and> list_all is_num_char (number_text pf l))"
  using platform_laws(1) [of pf] by (simp add: number_format_def)



lemma double_of_int: "\<bar>k\<bar> \<le> 9007199254740992 \<Longrightarrow> double_of pf (of_int k) = of_int k"
  using platform_laws(2) [of pf] by (simp add: rounding_def)

lemma double_of_small:
  "double_of pf 0 = 0" "double_of pf 5 = 5" "double_of pf 100 = 100"
  using double_of_int [of 0 pf] double_of_int [of 5 pf] double_of_int [of 100 pf] by simp_all

lemma example_platform_simps:
  "number_text example_platform = example_format" "double_of example_platform x = x"
  by (simp_all add: number_text_def double_of_def example_platform_def Abs_platform_inverse
        number_format_def example_format_def rounding_def)

lemma show_nat_shape:
  "\<exists>c r. show_nat n = c # r \<and> list_all is_digit (c # r) \<and> (c = cu CHR ''0'' \<longleftrightarrow> n = 0)
         \<and> (n = 0 \<longrightarrow> r = [])"
proof (induction n rule: show_nat.induct)
  case (1 n)
  show ?case
  proof (cases "n < 10")
    case True
    then have "show_nat n = [of_nat (48 + n)]" by (subst show_nat.simps) simp
    then show ?thesis using digit_char [OF True] by simp
  next
    case False
    from 1 [OF False] obtain c r where ih: "show_nat (n div 10) = c # r"
        "list_all is_digit (c # r)" "c = cu CHR ''0'' \<longleftrightarrow> n div 10 = 0"
      by (elim exE conjE)
    have d: "is_digit (of_nat (48 + n mod 10))"
      by (rule digit_char(1)) simp
    have s: "show_nat n = c # (r @ [of_nat (48 + n mod 10)])"
      using False ih(1) by (subst show_nat.simps) simp
    have "n div 10 \<noteq> 0" using False by simp
    with ih(3) have "c \<noteq> cu CHR ''0''" by simp
    moreover have "n \<noteq> 0" using False by simp
    ultimately show ?thesis using s ih(2) d by simp
  qed
qed

lemma digit_is_num_char: "is_digit c \<Longrightarrow> is_num_char c"
  by (simp add: is_num_char_def)

lemma wf_show_nat: "wf_json (JNumber (show_nat n))"
proof -
  obtain c r where s: "show_nat n = c # r" and d: "list_all is_digit (c # r)"
    and z: "c = cu CHR ''0'' \<longleftrightarrow> n = 0" and r: "n = 0 \<longrightarrow> r = []"
    using show_nat_shape [of n] by blast
  have cd: "is_digit c" and rd: "\<forall>x \<in> set r. is_digit x" using d by (simp_all add: list_all_iff)
  have nm: "c \<noteq> cu CHR ''-''" using cd by (auto simp: is_digit_def cu_def)
  have dw: "dropWhile is_digit r = []" using rd by simp
  have f: "frac_ok [] = True" by (simp add: frac_ok_def)
  have "number_ok (c # r)"
  proof (cases "n = 0")
    case True
    with z r nm show ?thesis by (simp add: number_ok_def f)
  next
    case False
    with z nm cd show ?thesis by (simp add: number_ok_def dw f)
  qed
  moreover have "list_all is_num_char (c # r)"
    using d by (auto simp: list_all_iff digit_is_num_char)
  ultimately show ?thesis by (simp add: s)
qed

lemma plain_show_nat: "n \<le> 9007199254740991 \<Longrightarrow> plain_integer (show_nat n)"
  by (auto simp: plain_integer_def)

lemma plain_not_null: "plain_integer l \<Longrightarrow> l \<noteq> ustr ''null''"
proof -
  assume "plain_integer l"
  then obtain n where l: "l = show_nat n \<or> l = cu CHR ''-'' # show_nat n"
    by (auto simp: plain_integer_def)
  obtain c r where s: "show_nat n = c # r" and d: "list_all is_digit (c # r)"
    using show_nat_shape [of n] by blast
  have "\<not> is_digit (cu CHR ''n'')" "cu CHR ''-'' \<noteq> cu CHR ''n''"
    by (simp_all add: is_digit_def cu_def)
  with l s d show ?thesis by (auto simp: ustr_def)
qed

lemma as_written_plain:
  "plain_numbers v \<Longrightarrow> as_written pf v = v"
  "plain_elements vs \<Longrightarrow> written_elements pf vs = vs"
  "plain_members kvs \<Longrightarrow> written_members pf kvs = kvs"
  by (induction pf v and pf vs and pf kvs rule: as_written_written_elements_written_members.induct)
     (auto simp: number_text_plain plain_not_null)

lemma written_keys: "map fst (written_members pf kvs) = map fst kvs"
  by (induction kvs) auto

lemma written_elements_length: "length (written_elements pf vs) = length vs"
  by (induction vs) auto

lemma written_elements_append:
  "written_elements pf (xs @ ys) = written_elements pf xs @ written_elements pf ys"
  by (induction xs) auto

lemma map_of_written:
  "map_of (written_members pf kvs) k = map_option (as_written pf) (map_of kvs k)"
  by (induction kvs) auto

lemma get_prop_written: "get_prop (as_written pf v) k = map_option (as_written pf) (get_prop v k)"
  by (cases v) (simp_all add: get_prop_def map_of_written)

lemma wf_as_written:
  "wf_json v \<Longrightarrow> wf_json (as_written pf v)"
  "wf_elements vs \<Longrightarrow> wf_elements (written_elements pf vs)"
  "wf_members kvs \<Longrightarrow> wf_members (written_members pf kvs)"
proof (induction pf v and pf vs and pf kvs rule: as_written_written_elements_written_members.induct)
  case (3 pf l)
  then show ?case using number_text_valid [of l pf] by auto
qed (auto simp: written_keys)

text \<open>
  What \<open>JSON_parse\<close> reads back from a text written by \<open>JSON_stringify\<close> is the value as
  written: the value itself when its numbers are plain integers.
\<close>

lemma JSON_parse_written: "wf_json v \<Longrightarrow> JSON_parse (JSON_stringify pf v) = Inr (as_written pf v)"
  by (simp add: JSON_stringify_def JSON_parse_stringify_wf wf_as_written)

lemma JSON_parse_written_plain:
  "wf_json v \<Longrightarrow> plain_numbers v \<Longrightarrow> JSON_parse (JSON_stringify pf v) = Inr v"
  by (simp add: JSON_parse_written as_written_plain)

section \<open>Reading the store\<close>

lemma skip_ws_Nil: "skip_ws [] = []"
  by (simp add: skip_ws_def)

lemma parse_empty_object: "JSON_parse (ustr ''{}'') = Inr (JObject [])"
  by (simp add: JSON_parse_def ustr_def parse_value_object skip_ws_punct skip_ws_Nil)

lemma parse_empty_array: "JSON_parse (ustr ''[]'') = Inr (JArray [])"
  by (simp add: JSON_parse_def ustr_def parse_value_array skip_ws_punct skip_ws_Nil)

lemma readUser_absent:
  "getItem ls ''userData'' = None \<or> getItem ls ''userData'' = Some [] \<Longrightarrow> readUser ls = Inr (JObject [])"
  by (auto simp: readUser_def or_default_def parse_empty_object)

lemma readUploadedFiles_absent:
  "getItem ls ''uploadedFiles'' = None \<or> getItem ls ''uploadedFiles'' = Some []
     \<Longrightarrow> readUploadedFiles ls = Inr (JArray [])"
  by (auto simp: readUploadedFiles_def or_default_def parse_empty_array)

lemma readUser_present:
  "getItem ls ''userData'' = Some t \<Longrightarrow> t \<noteq> [] \<Longrightarrow> readUser ls = JSON_parse t"
  by (simp add: readUser_def or_default_def)

lemma readUploadedFiles_present:
  "getItem ls ''uploadedFiles'' = Some t \<Longrightarrow> t \<noteq> [] \<Longrightarrow> readUploadedFiles ls = JSON_parse t"
  by (simp add: readUploadedFiles_def or_default_def)

lemma handleLogin_raises:
  "email \<noteq> [] \<Longrightarrow> password \<noteq> [] \<Longrightarrow> readUser ls = Inl e \<Longrightarrow> handleLogin pf email password ls = Inl e"
  by (simp add: handleLogin_def)

lemma saveUploadedFile_raises:
  "readUploadedFiles ls = Inl e \<Longrightarrow> saveUploadedFile pf fd ls = Inl e"
  by (simp add: saveUploadedFile_def)

lemma parse_not_json: "JSON_parse (ustr ''not json'') = Inl SyntaxError"
  by (simp add: JSON_parse_def ustr_def cu_def parse_value.simps skip_ws_def is_ws_def
        parse_literal_def strip_prefix_def)

section \<open>Login\<close>

lemma user_keys:
  "array_index (ustr ''name'') = None" "array_index (ustr ''email'') = None"
  "array_index (ustr ''isLoggedIn'') = None"
  "ustr ''name'' \<noteq> ustr ''email''" "ustr ''name'' \<noteq> ustr ''isLoggedIn''"
  "ustr ''email'' \<noteq> ustr ''isLoggedIn''" "ustr ''email'' \<noteq> ustr ''name''"
  "ustr ''password'' \<noteq> ustr ''name''" "ustr ''password'' \<noteq> ustr ''email''"
  "ustr ''password'' \<noteq> ustr ''isLoggedIn''"
  by (simp_all add: array_index_def ustr_def cu_def is_digit_def)

lemma user_order:
  "key_before (ustr ''name'') (ustr ''email'')" "key_before (ustr ''name'') (ustr ''isLoggedIn'')"
  "key_before (ustr ''email'') (ustr ''isLoggedIn'')"
  "key_before (ustr ''name'') (ustr ''password'')" "key_before (ustr ''email'') (ustr ''password'')"
  "key_before (ustr ''password'') (ustr ''isLoggedIn'')"
  by (simp_all add: key_before_def user_keys user_keys(4-10) [symmetric] array_index_def ustr_def
        cu_def is_digit_def)

lemma wf_map_of: "wf_members kvs \<Longrightarrow> map_of kvs k = Some x \<Longrightarrow> wf_json x"
  by (induction kvs) (auto split: if_splits)

lemma wf_get_prop: "wf_json v \<Longrightarrow> get_prop v k = Some x \<Longrightarrow> wf_json x"
  by (cases v) (auto simp: get_prop_def dest: wf_map_of)

lemma wf_userData:
  "wf_json v \<Longrightarrow>
   wf_json (JObject (omit_undefined
      [(ustr ''name'', get_prop v (ustr ''name'')), (ustr ''email'', Some (JString e)),
       (ustr ''isLoggedIn'', Some (JBool True))]))"
  by (cases "get_prop v (ustr ''name'')") (auto simp: user_order dest: wf_get_prop)

lemma stringify_object_nonempty: "JSON_stringify pf (JObject kvs) \<noteq> []"
  by (simp add: JSON_stringify_def)

lemma handleLogin_success_iff:
  "handleLogin pf email password ls = Inr (LoggedIn, ls') \<longleftrightarrow>
     email \<noteq> [] \<and> password \<noteq> [] \<and>
     (\<exists>v. readUser ls = Inr v
          \<and> get_prop v (ustr ''email'') = Some (JString email)
          \<and> get_prop v (ustr ''password'') = Some (JString password)
          \<and> ls' = setItem ls ''userData'' (JSON_stringify pf (JObject (omit_undefined
                 [(ustr ''name'', get_prop v (ustr ''name'')),
                  (ustr ''email'', Some (JString email)),
                  (ustr ''isLoggedIn'', Some (JBool True))]))))"
proof -
  have nf: "\<not> falsy v" if "get_prop v k = Some x" for v k x
    using that by (cases v) (simp_all add: get_prop_def falsy_def)
  show ?thesis
    by (cases "readUser ls") (auto simp: handleLogin_def Let_def nf)
qed

text \<open>
  The record as written: the name with its numbers written anew, the email and the
  flag as they are.
\<close>

lemma written_userData:
  "as_written pf (JObject (omit_undefined
      [(ustr ''name'', n), (ustr ''email'', Some (JString e)), (ustr ''isLoggedIn'', Some (JBool True))]))
   = JObject (omit_undefined
      [(ustr ''name'', map_option (as_written pf) n), (ustr ''email'', Some (JString e)),
       (ustr ''isLoggedIn'', Some (JBool True))])"
  by (cases n) simp_all

lemma handleLogin_then_readUser:
  assumes "handleLogin pf email password ls = Inr (LoggedIn, ls')"
  shows "\<exists>v. readUser ls = Inr v \<and>
           readUser ls' = Inr (JObject (omit_undefined
             [(ustr ''name'', map_option (as_written pf) (get_prop v (ustr ''name''))),
              (ustr ''email'', Some (JString email)),
              (ustr ''isLoggedIn'', Some (JBool True))]))"
proof -
  from assms obtain v where v: "readUser ls = Inr v"
    and ls': "ls' = setItem ls ''userData'' (JSON_stringify pf (JObject (omit_undefined
                 [(ustr ''name'', get_prop v (ustr ''name'')),
                  (ustr ''email'', Some (JString email)),
                  (ustr ''isLoggedIn'', Some (JBool True))])))"
    unfolding handleLogin_success_iff by blast
  let ?u = "JObject (omit_undefined
                 [(ustr ''name'', get_prop v (ustr ''name'')),
                  (ustr ''email'', Some (JString email)),
                  (ustr ''isLoggedIn'', Some (JBool True))])"
  have "wf_json v" using v by (auto simp: readUser_def dest: JSON_parse_wf)
  then have wf: "wf_json ?u" by (rule wf_userData)
  have "getItem ls' ''userData'' = Some (JSON_stringify pf ?u)"
    by (simp add: ls' getItem_def setItem_def)
  then have "readUser ls' = JSON_parse (JSON_stringify pf ?u)"
    using stringify_object_nonempty by (rule readUser_present)
  also have "\<dots> = Inr (as_written pf ?u)" using wf by (rule JSON_parse_written)
  finally show ?thesis using v unfolding written_userData by blast
qed

subsection \<open>An example record\<close>

lemma quote_plain:
  "quote (ustr ''A'') = ustr ''\"A\"''" "quote (ustr ''a@b.c'') = ustr ''\"a@b.c\"''"
  "quote (ustr ''pw'') = ustr ''\"pw\"''" "quote (ustr ''name'') = ustr ''\"name\"''"
  "quote (ustr ''email'') = ustr ''\"email\"''" "quote (ustr ''password'') = ustr ''\"password\"''"
  "quote (ustr ''isLoggedIn'') = ustr ''\"isLoggedIn\"''"
  by (simp_all add: quote_def ustr_def cu_def escape_cu_def is_high_def is_low_def)

lemma example_user_stringify: "JSON_stringify pf example_user = example_user_text"
  by (simp add: JSON_stringify_def example_user_def example_user_text_def quote_plain)
     (simp add: ustr_def)

lemma example_user_after_stringify:
  "JSON_stringify pf (JObject [(ustr ''name'', JString (ustr ''A'')), (ustr ''email'', JString (ustr ''a@b.c'')),
       (ustr ''isLoggedIn'', JBool True)]) = example_user_text_after"
  by (simp add: JSON_stringify_def example_user_text_after_def quote_plain)
     (simp add: ustr_def)

lemma example_user_wf: "wf_json example_user" "plain_numbers example_user"
  by (simp_all add: example_user_def user_order)

lemma example_user_parse: "JSON_parse example_user_text = Inr example_user"
  using JSON_parse_written_plain [OF example_user_wf] by (simp add: example_user_stringify)

lemma example_readUser: "readUser example_store = Inr example_user"
proof -
  have "example_user_text \<noteq> []" by (simp add: example_user_text_def ustr_def)
  then show ?thesis
    by (simp add: readUser_def or_default_def getItem_def example_store_def example_user_parse)
qed

lemma example_props:
  "get_prop example_user (ustr ''name'') = Some (JString (ustr ''A''))"
  "get_prop example_user (ustr ''email'') = Some (JString (ustr ''a@b.c''))"
  "get_prop example_user (ustr ''password'') = Some (JString (ustr ''pw''))"
  by (simp_all add: get_prop_def example_user_def user_keys user_keys(4-10) [symmetric])

lemma example_nonempty: "ustr ''a@b.c'' \<noteq> []" "ustr ''pw'' \<noteq> []" "ustr ''wrong'' \<noteq> []"
  "ustr ''pw'' \<noteq> ustr ''wrong''"
  by (simp_all add: ustr_def cu_def)

lemma example_login:
  "handleLogin pf (ustr ''a@b.c'') (ustr ''pw'') example_store
     = Inr (LoggedIn, [''userData'' \<mapsto> example_user_text_after])"
proof -
  have "handleLogin pf (ustr ''a@b.c'') (ustr ''pw'') example_store
     = Inr (LoggedIn, setItem example_store ''userData'' (JSON_stringify pf (JObject (omit_undefined
                 [(ustr ''name'', get_prop example_user (ustr ''name'')),
                  (ustr ''email'', Some (JString (ustr ''a@b.c''))),
                  (ustr ''isLoggedIn'', Some (JBool True))]))))"
    unfolding handleLogin_success_iff
    using example_readUser example_props example_nonempty by blast
  then show ?thesis
    by (simp add: example_props example_user_after_stringify setItem_def example_store_def)
qed

lemma malformed_reads:
  "readUser malformed_store = Inl SyntaxError" "readUploadedFiles malformed_store = Inl SyntaxError"
proof -
  have ne: "ustr ''not json'' \<noteq> []" by (simp add: ustr_def)
  show "readUser malformed_store = Inl SyntaxError"
    using ne by (simp add: readUser_present getItem_def malformed_store_def parse_not_json)
  show "readUploadedFiles malformed_store = Inl SyntaxError"
    using ne by (simp add: readUploadedFiles_present getItem_def malformed_store_def parse_not_json)
qed

subsection \<open>The reads\<close>

text \<open>
  C1 claims that the two reads return normally on every stored text, malformed text
  included. They do not: on the stored text \<^verbatim>\<open>not json\<close> both reads raise a
  SyntaxError, and it leaves \<open>handleLogin\<close> and \<open>saveUploadedFile\<close> uncaught.
\<close>

theorem reads_raise_on_malformed_text:
  "readUser malformed_store = Inl SyntaxError
   \<and> handleLogin example_platform (ustr ''a@b.c'') (ustr ''pw'') malformed_store = Inl SyntaxError
   \<and> readUploadedFiles malformed_store = Inl SyntaxError
   \<and> saveUploadedFile example_platform example_fileData malformed_store = Inl SyntaxError"
  using malformed_reads example_nonempty
  by (simp add: handleLogin_raises saveUploadedFile_raises)

text \<open>
  C1, as the code has it: for an absent key or an empty stored text \<open>readUser\<close> returns
  the empty object and \<open>readUploadedFiles\<close> the empty sequence; for any other stored
  text each returns what \<open>JSON_parse\<close> returns on that text, which is the value for
  well-formed JSON (in particular for every text that \<open>JSON_stringify\<close> wrote, which
  is read back as the value written: the value given, when its numbers are plain
  integers) and a SyntaxError otherwise; an error of the read is not caught
  by \<open>handleLogin\<close> (once both inputs are non-empty) nor by \<open>saveUploadedFile\<close>.
\<close>

theorem reads_follow_JSON_parse:
  "(getItem ls ''userData'' = None \<or> getItem ls ''userData'' = Some []
      \<longrightarrow> readUser ls = Inr (JObject []))
   \<and> (getItem ls ''uploadedFiles'' = None \<or> getItem ls ''uploadedFiles'' = Some []
      \<longrightarrow> readUploadedFiles ls = Inr (JArray []))
   \<and> (getItem ls ''userData'' = Some t \<and> t \<noteq> [] \<longrightarrow> readUser ls = JSON_parse t)
   \<and> (getItem ls ''uploadedFiles'' = Some t' \<and> t' \<noteq> [] \<longrightarrow> readUploadedFiles ls = JSON_parse t')
   \<and> (wf_json v \<longrightarrow> JSON_parse (JSON_stringify pf v) = Inr (as_written pf v))
   \<and> (wf_json v \<and> plain_numbers v \<longrightarrow> JSON_parse (JSON_stringify pf v) = Inr v)
   \<and> (email \<noteq> [] \<and> password \<noteq> [] \<and> readUser ls = Inl e
      \<longrightarrow> handleLogin pf email password ls = Inl e)
   \<and> (readUploadedFiles ls = Inl e' \<longrightarrow> saveUploadedFile pf fd ls = Inl e')"
  by (simp add: readUser_absent readUploadedFiles_absent readUser_present readUploadedFiles_present
        JSON_parse_written as_written_plain handleLogin_raises saveUploadedFile_raises)

theorem reads_follow_JSON_parse_witness:
  "readUser Map.empty = Inr (JObject [])
   \<and> readUploadedFiles Map.empty = Inr (JArray [])
   \<and> getItem example_store ''userData'' = Some example_user_text \<and> example_user_text \<noteq> []
   \<and> readUser example_store = JSON_parse example_user_text
   \<and> JSON_parse example_user_text = Inr example_user
   \<and> wf_json example_user \<and> plain_numbers example_user
   \<and> JSON_parse (JSON_stringify example_platform example_user) = Inr example_user
   \<and> readUser malformed_store = Inl SyntaxError
   \<and> handleLogin example_platform (ustr ''a@b.c'') (ustr ''pw'') malformed_store = Inl SyntaxError
   \<and> readUploadedFiles malformed_store = Inl SyntaxError
   \<and> saveUploadedFile example_platform example_fileData malformed_store = Inl SyntaxError"
proof -
  have ne: "example_user_text \<noteq> []" by (simp add: example_user_text_def ustr_def)
  have g: "getItem example_store ''userData'' = Some example_user_text"
    by (simp add: getItem_def example_store_def)
  note wf = example_user_wf
  note a = reads_follow_JSON_parse
      [where ls = Map.empty and v = example_user and email = "[]" and password = "[]"
         and fd = example_fileData and pf = example_platform]
  note b = reads_follow_JSON_parse
      [where ls = example_store and t = example_user_text and v = example_user and email = "[]"
         and password = "[]" and fd = example_fileData and pf = example_platform]
  note c = reads_follow_JSON_parse
      [where ls = malformed_store and v = example_user and email = "ustr ''a@b.c''"
         and password = "ustr ''pw''" and e = SyntaxError and e' = SyntaxError
         and fd = example_fileData and pf = example_platform]
  show ?thesis
    using a b c ne g wf malformed_reads example_nonempty example_user_parse
    by (simp add: getItem_def)
qed

subsection \<open>Successful and failed attempts\<close>

text \<open>
  C4: for every non-empty email and password equal to the email and password of the
  stored user record, \<open>handleLogin\<close> signals success and writes under \<^verbatim>\<open>userData\<close>
  the text of a record whose name and email are those of the stored record and whose
  \<^verbatim>\<open>isLoggedIn\<close> is true. Reading the store afterwards yields a record of at most
  these three fields: the email of the stored record, \<^verbatim>\<open>isLoggedIn\<close> true, and the name
  of the stored record as \<^verbatim>\<open>JSON.stringify\<close> writes it, which is the name itself when
  it is a string, or any value whose numbers are plain integers.
\<close>

theorem login_succeeds:
  assumes "email \<noteq> []" "password \<noteq> []"
    and "readUser ls = Inr v"
    and "get_prop v (ustr ''email'') = Some (JString email)"
    and "get_prop v (ustr ''password'') = Some (JString password)"
  shows "\<exists>ls'. handleLogin pf email password ls = Inr (LoggedIn, ls')
           \<and> ls' = setItem ls ''userData'' (JSON_stringify pf (JObject (omit_undefined
                 [(ustr ''name'', get_prop v (ustr ''name'')),
                  (ustr ''email'', get_prop v (ustr ''email'')),
                  (ustr ''isLoggedIn'', Some (JBool True))])))
           \<and> readUser ls' = Inr (JObject (omit_undefined
                 [(ustr ''name'', map_option (as_written pf) (get_prop v (ustr ''name''))),
                  (ustr ''email'', get_prop v (ustr ''email'')),
                  (ustr ''isLoggedIn'', Some (JBool True))]))
           \<and> (\<forall>s. get_prop v (ustr ''name'') = Some (JString s) \<longrightarrow>
                 readUser ls' = Inr (JObject
                   [(ustr ''name'', JString s), (ustr ''email'', JString email),
                    (ustr ''isLoggedIn'', JBool True)]))
           \<and> (\<forall>n. get_prop v (ustr ''name'') = Some n \<and> plain_numbers n \<longrightarrow>
                 readUser ls' = Inr (JObject
                   [(ustr ''name'', n), (ustr ''email'', JString email),
                    (ustr ''isLoggedIn'', JBool True)]))
           \<and> (get_prop v (ustr ''name'') = None \<longrightarrow>
                 readUser ls' = Inr (JObject
                   [(ustr ''email'', JString email), (ustr ''isLoggedIn'', JBool True)]))"
proof -
  let ?ls' = "setItem ls ''userData'' (JSON_stringify pf (JObject (omit_undefined
                 [(ustr ''name'', get_prop v (ustr ''name'')),
                  (ustr ''email'', get_prop v (ustr ''email'')),
                  (ustr ''isLoggedIn'', Some (JBool True))])))"
  have ok: "handleLogin pf email password ls = Inr (LoggedIn, ?ls')"
    using assms handleLogin_success_iff [of pf email password ls] by simp
  from handleLogin_then_readUser [OF ok] assms(3,4)
  have r: "readUser ?ls' = Inr (JObject (omit_undefined
                 [(ustr ''name'', map_option (as_written pf) (get_prop v (ustr ''name''))),
                  (ustr ''email'', get_prop v (ustr ''email'')),
                  (ustr ''isLoggedIn'', Some (JBool True))]))"
    by auto
  from ok r assms(4) show ?thesis
    by (intro exI [of _ ?ls']) (auto simp: as_written_plain)
qed

theorem login_succeeds_witness:
  "ustr ''a@b.c'' \<noteq> [] \<and> ustr ''pw'' \<noteq> [] \<and> readUser example_store = Inr example_user
   \<and> get_prop example_user (ustr ''email'') = Some (JString (ustr ''a@b.c''))
   \<and> get_prop example_user (ustr ''password'') = Some (JString (ustr ''pw''))
   \<and> get_prop example_user (ustr ''name'') = Some (JString (ustr ''A''))
   \<and> handleLogin example_platform (ustr ''a@b.c'') (ustr ''pw'') example_store =
         Inr (LoggedIn, setItem example_store ''userData'' example_user_text_after)
   \<and> readUser (setItem example_store ''userData'' example_user_text_after) =
         Inr (JObject [(ustr ''name'', JString (ustr ''A'')), (ustr ''email'', JString (ustr ''a@b.c'')),
                (ustr ''isLoggedIn'', JBool True)])"
  using login_succeeds [OF example_nonempty(1,2) example_readUser example_props(2,3), of example_platform]
    example_nonempty example_readUser example_props
  by (auto simp: example_user_after_stringify)

text \<open>
  C5: a login attempt that fails leaves the store as it was. With an empty email or
  password the result is the validation signal; with both non-empty and a stored record
  that is absent, or whose email or password differs from the input, it is the
  authentication signal; and whatever the signal, if it is not success the store
  returned is the store given.
\<close>

theorem failed_login_leaves_store:
  "(email = [] \<or> password = [] \<longrightarrow> handleLogin pf email password ls = Inr (FillInAllFields, ls))
   \<and> (email \<noteq> [] \<and> password \<noteq> [] \<and> readUser ls = Inr v
        \<and> (get_prop v (ustr ''email'') \<noteq> Some (JString email)
           \<or> get_prop v (ustr ''password'') \<noteq> Some (JString password))
        \<longrightarrow> handleLogin pf email password ls = Inr (InvalidCredentials, ls))
   \<and> (email \<noteq> [] \<and> password \<noteq> []
        \<and> (getItem ls ''userData'' = None \<or> getItem ls ''userData'' = Some [])
        \<longrightarrow> handleLogin pf email password ls = Inr (InvalidCredentials, ls))
   \<and> (handleLogin pf email password ls = Inr (sig, ls') \<and> sig \<noteq> LoggedIn \<longrightarrow> ls' = ls)"
proof (intro conjI impI)
  assume "email = [] \<or> password = []"
  then show "handleLogin pf email password ls = Inr (FillInAllFields, ls)"
    by (auto simp: handleLogin_def)
next
  assume "email \<noteq> [] \<and> password \<noteq> [] \<and> readUser ls = Inr v
        \<and> (get_prop v (ustr ''email'') \<noteq> Some (JString email)
           \<or> get_prop v (ustr ''password'') \<noteq> Some (JString password))"
  then show "handleLogin pf email password ls = Inr (InvalidCredentials, ls)"
    by (auto simp: handleLogin_def)
next
  assume a: "email \<noteq> [] \<and> password \<noteq> []
        \<and> (getItem ls ''userData'' = None \<or> getItem ls ''userData'' = Some [])"
  then have "readUser ls = Inr (JObject [])" by (simp add: readUser_absent)
  with a show "handleLogin pf email password ls = Inr (InvalidCredentials, ls)"
    by (simp add: handleLogin_def get_prop_def)
next
  assume "handleLogin pf email password ls = Inr (sig, ls') \<and> sig \<noteq> LoggedIn"
  then show "ls' = ls"
    by (cases "readUser ls") (auto simp: handleLogin_def Let_def split: if_splits)
qed

theorem failed_login_leaves_store_witness:
  "handleLogin example_platform [] (ustr ''pw'') example_store = Inr (FillInAllFields, example_store)
   \<and> ustr ''a@b.c'' \<noteq> [] \<and> ustr ''wrong'' \<noteq> [] \<and> readUser example_store = Inr example_user
   \<and> get_prop example_user (ustr ''password'') \<noteq> Some (JString (ustr ''wrong''))
   \<and> handleLogin example_platform (ustr ''a@b.c'') (ustr ''wrong'') example_store
       = Inr (InvalidCredentials, example_store)
   \<and> getItem Map.empty ''userData'' = None
   \<and> handleLogin example_platform (ustr ''a@b.c'') (ustr ''pw'') Map.empty
       = Inr (InvalidCredentials, Map.empty)"
  using failed_login_leaves_store [of "[]" "ustr ''pw''" example_platform example_store example_user
        FillInAllFields example_store]
    failed_login_leaves_store [of "ustr ''a@b.c''" "ustr ''wrong''" example_platform example_store
        example_user InvalidCredentials example_store]
    failed_login_leaves_store [of "ustr ''a@b.c''" "ustr ''pw''" example_platform Map.empty example_user
        InvalidCredentials Map.empty]
    example_nonempty example_readUser example_props
  by (simp add: getItem_def)

text \<open>
  C3: the record a successful login persists has no fields other than \<^verbatim>\<open>name\<close>,
  \<^verbatim>\<open>email\<close> and \<^verbatim>\<open>isLoggedIn\<close>; the password of the stored record is dropped. So a
  second attempt with the same email and password, both non-empty, on the store the
  first one left, ends with the authentication signal.
\<close>

theorem second_login_fails:
  assumes "handleLogin pf email password ls = Inr (LoggedIn, ls')"
  shows "\<exists>kvs. readUser ls' = Inr (JObject kvs)
           \<and> set (map fst kvs) \<subseteq> {ustr ''name'', ustr ''email'', ustr ''isLoggedIn''}
           \<and> map_of kvs (ustr ''password'') = None
           \<and> email \<noteq> [] \<and> password \<noteq> []
           \<and> handleLogin pf email password ls' = Inr (InvalidCredentials, ls')"
proof -
  from assms have ne: "email \<noteq> []" "password \<noteq> []"
    unfolding handleLogin_success_iff by blast+
  from handleLogin_then_readUser [OF assms] obtain n where
    r: "readUser ls' = Inr (JObject (omit_undefined
             [(ustr ''name'', n), (ustr ''email'', Some (JString email)),
              (ustr ''isLoggedIn'', Some (JBool True))]))"
    by blast
  let ?kvs = "omit_undefined
             [(ustr ''name'', n), (ustr ''email'', Some (JString email)),
              (ustr ''isLoggedIn'', Some (JBool True))]"
  have keys: "set (map fst ?kvs) \<subseteq> {ustr ''name'', ustr ''email'', ustr ''isLoggedIn''}"
    by (cases n) simp_all
  have nopw: "map_of ?kvs (ustr ''password'') = None"
    by (cases n) (simp_all add: user_keys)
  have "handleLogin pf email password ls' = Inr (InvalidCredentials, ls')"
    using ne nopw by (simp add: handleLogin_def r get_prop_def)
  with r keys nopw ne show ?thesis by blast
qed

theorem second_login_fails_witness:
  "handleLogin example_platform (ustr ''a@b.c'') (ustr ''pw'') example_store
     = Inr (LoggedIn, [''userData'' \<mapsto> example_user_text_after])
   \<and> handleLogin example_platform (ustr ''a@b.c'') (ustr ''pw'') [''userData'' \<mapsto> example_user_text_after]
     = Inr (InvalidCredentials, [''userData'' \<mapsto> example_user_text_after])"
  using second_login_fails [OF example_login] example_login by blast

text \<open>
  C2 says that after a successful login the value under \<^verbatim>\<open>userData\<close> is an object with
  the four fields \<^verbatim>\<open>name\<close>, \<^verbatim>\<open>email\<close>, \<^verbatim>\<open>password\<close>, \<^verbatim>\<open>isLoggedIn\<close>. On a
  stored record with these four fields and the matching credentials the handler writes
  an object with three: the password is gone.
\<close>

theorem login_drops_password:
  "handleLogin pf (ustr ''a@b.c'') (ustr ''pw'')
     [''userData'' \<mapsto>
        ustr ''{\"name\":\"A\",\"email\":\"a@b.c\",\"password\":\"pw\",\"isLoggedIn\":false}'']
   = Inr (LoggedIn,
       [''userData'' \<mapsto> ustr ''{\"name\":\"A\",\"email\":\"a@b.c\",\"isLoggedIn\":true}''])"
  using example_login
  by (simp add: example_store_def example_user_text_def example_user_text_after_def)

theorem login_drops_password_witness:
  "handleLogin example_platform (ustr ''a@b.c'') (ustr ''pw'') example_store
     = Inr (LoggedIn, [''userData'' \<mapsto> example_user_text_after])
   \<and> JSON_stringify example_platform (JObject [(ustr ''name'', JString (ustr ''A'')),
          (ustr ''email'', JString (ustr ''a@b.c'')), (ustr ''isLoggedIn'', JBool True)])
       = example_user_text_after"
  using login_drops_password [of example_platform] example_user_after_stringify
  by (simp add: example_store_def example_user_text_def example_user_text_after_def)

section \<open>The stored files\<close>

lemma file_keys_order:
  "sorted_wrt key_before
     [ustr ''id'', ustr ''name'', ustr ''type'', ustr ''size'', ustr ''modifiedAt'', ustr ''isFolder'']"
  by (simp add: key_before_def array_index_def ustr_def cu_def is_digit_def)

lemma wf_fileData_json: "wf_json (fileData_json fd)"
  using file_keys_order wf_show_nat [of "fd_size fd"] by (simp add: fileData_json_def)

lemma plain_fileData_json: "fd_size fd \<le> 9007199254740991 \<Longrightarrow> plain_numbers (fileData_json fd)"
  by (simp add: fileData_json_def plain_show_nat)

lemma wf_elements_append: "wf_elements (xs @ ys) \<longleftrightarrow> wf_elements xs \<and> wf_elements ys"
  by (induction xs) auto

lemma plain_elements_append: "plain_elements (xs @ ys) \<longleftrightarrow> plain_elements xs \<and> plain_elements ys"
  by (induction xs) auto

lemma written_elements_map: "written_elements pf xs = map (as_written pf) xs"
  by (induction xs) auto

lemma wf_elements_strings: "wf_elements (map JString l)"
  by (induction l) auto

lemma wf_spread: "wf_json v \<Longrightarrow> spread v = Inr xs \<Longrightarrow> wf_elements xs"
  by (cases v) (auto simp: spread_def wf_elements_strings)

lemma spread_Inr:
  "spread v = Inr xs \<longleftrightarrow> v = JArray xs \<or> (\<exists>s. v = JString s \<and> xs = map JString (code_points s))"
  by (cases v) (auto simp: spread_def)

lemma stringify_array_nonempty: "JSON_stringify pf (JArray xs) \<noteq> []"
  by (simp add: JSON_stringify_def)

lemma saveUploadedFile_Inr:
  "saveUploadedFile pf fd ls = Inr ls' \<longleftrightarrow>
     (\<exists>v xs. readUploadedFiles ls = Inr v \<and> spread v = Inr xs
        \<and> ls' = setItem ls ''uploadedFiles'' (JSON_stringify pf (JArray (xs @ [fileData_json fd]))))"
  by (auto simp: saveUploadedFile_def Let_def split: sum.splits)

lemma readUploadedFiles_after:
  assumes "readUploadedFiles ls = Inr v" "spread v = Inr xs"
  shows "readUploadedFiles (setItem ls ''uploadedFiles'' (JSON_stringify pf (JArray (xs @ [fileData_json fd]))))
           = Inr (JArray (map (as_written pf) xs @ [as_written pf (fileData_json fd)]))"
proof -
  let ?u = "JArray (xs @ [fileData_json fd])"
  have "wf_json v" using assms(1) by (auto simp: readUploadedFiles_def dest: JSON_parse_wf)
  then have "wf_elements xs" using assms(2) by (rule wf_spread)
  then have wf: "wf_json ?u" by (simp add: wf_elements_append wf_fileData_json)
  have "getItem (setItem ls ''uploadedFiles'' (JSON_stringify pf ?u)) ''uploadedFiles'' = Some (JSON_stringify pf ?u)"
    by (simp add: getItem_def setItem_def)
  then have "readUploadedFiles (setItem ls ''uploadedFiles'' (JSON_stringify pf ?u)) = JSON_parse (JSON_stringify pf ?u)"
    using stringify_array_nonempty by (rule readUploadedFiles_present)
  then show ?thesis using wf by (simp add: JSON_parse_written written_elements_map)
qed

subsection \<open>Example stores\<close>

lemma show_nat_small:
  "show_nat 0 = ustr ''0''" "show_nat (Suc 0) = ustr ''1''" "show_nat 10 = ustr ''10''"
  "show_nat 200 = ustr ''200''" "show_nat 1970 = ustr ''1970''"
  using show_nat.simps [of 0] show_nat.simps [of "Suc 0"]
  by (simp_all add: show_nat.simps [of "numeral k" for k] ustr_def cu_def)

lemma pads:
  "pad 4 1970 = ustr ''1970''" "pad 2 (Suc 0) = ustr ''01''" "pad 2 0 = ustr ''00''"
  "pad 3 200 = ustr ''200''"
  by (simp_all add: pad_def show_nat_small) (simp_all add: ustr_def)

lemma civil_0: "civil_from_days 0 = (1970, 1, 1)"
  by (simp add: civil_from_days_def ymd_of_doe_def ymd_of_yoe_def ymd_of_mp_def)

lemma toISOString_1200: "toISOString 1200 = ustr ''1970-01-01T00:00:01.200Z''"
  by (simp add: toISOString_def civil_0 iso_format_def pads) (simp add: ustr_def)

lemma quote_file_strings:
  "quote (ustr ''id'') = ustr ''\"id\"''" "quote (ustr ''type'') = ustr ''\"type\"''"
  "quote (ustr ''size'') = ustr ''\"size\"''" "quote (ustr ''modifiedAt'') = ustr ''\"modifiedAt\"''"
  "quote (ustr ''isFolder'') = ustr ''\"isFolder\"''" "quote (ustr ''a.txt-1000'') = ustr ''\"a.txt-1000\"''"
  "quote (ustr ''a.txt'') = ustr ''\"a.txt\"''" "quote (ustr ''text/plain'') = ustr ''\"text/plain\"''"
  "quote (ustr ''1970-01-01T00:00:01.200Z'') = ustr ''\"1970-01-01T00:00:01.200Z\"''"
  "quote (ustr ''ab'') = ustr ''\"ab\"''" "quote (ustr ''a'') = ustr ''\"a\"''"
  "quote (ustr ''b'') = ustr ''\"b\"''"
  by (simp_all add: quote_def ustr_def cu_def escape_cu_def is_high_def is_low_def)

lemma example_fileData_plain:
  "fd_size example_fileData \<le> 9007199254740991" "plain_numbers (fileData_json example_fileData)"
  "as_written pf (fileData_json example_fileData) = fileData_json example_fileData"
proof -
  show 1: "fd_size example_fileData \<le> 9007199254740991" by (simp add: example_fileData_def)
  then show 2: "plain_numbers (fileData_json example_fileData)" by (rule plain_fileData_json)
  then show "as_written pf (fileData_json example_fileData) = fileData_json example_fileData"
    by (rule as_written_plain)
qed

lemma example_record_stringify: "stringify (fileData_json example_fileData) = example_record_text"
  by (simp add: fileData_json_def example_fileData_def example_record_text_def
        quote_plain quote_file_strings toISOString_1200 show_nat_small)
     (simp add: ustr_def)

lemma example_files_text_record: "example_files_text = cu CHR ''['' # example_record_text @ [cu CHR '']'']"
  by (simp add: example_files_text_def example_record_text_def ustr_def)

lemma example_files_stringify:
  "JSON_stringify pf (JArray [fileData_json example_fileData]) = example_files_text"
  by (simp add: JSON_stringify_def example_fileData_plain example_record_stringify
        example_files_text_record)

lemma example_files_read:
  "readUploadedFiles [''uploadedFiles'' \<mapsto> example_files_text] = Inr (JArray [fileData_json example_fileData])"
proof -
  have "JSON_parse (JSON_stringify example_platform (JArray [fileData_json example_fileData]))
          = Inr (JArray [fileData_json example_fileData])"
    by (rule JSON_parse_written_plain) (simp_all add: wf_fileData_json example_fileData_plain)
  moreover have "example_files_text \<noteq> []" by (simp add: example_files_text_record)
  ultimately show ?thesis
    by (simp add: example_files_stringify readUploadedFiles_present getItem_def)
qed

lemma string_store_read: "readUploadedFiles string_store = Inr (JString (ustr ''ab''))"
proof -
  have "JSON_parse (stringify (JString (ustr ''ab''))) = Inr (JString (ustr ''ab''))"
    by (rule JSON_parse_stringify_wf) simp
  moreover have "ustr ''\"ab\"'' \<noteq> []" by (simp add: ustr_def)
  ultimately show ?thesis
    by (simp add: quote_file_strings readUploadedFiles_present getItem_def string_store_def)
qed

lemma code_points_ab: "code_points (ustr ''ab'') = [ustr ''a'', ustr ''b'']"
  by (simp add: ustr_def cu_def is_high_def)

lemma overflow_store_read: "readUploadedFiles overflow_store = Inr (JArray [JNumber (ustr ''1e400'')])"
proof -
  have "wf_json (JArray [JNumber (ustr ''1e400'')])"
    by (simp add: number_ok_def frac_ok_def exp_ok_def is_digit_def is_num_char_def ustr_def cu_def)
  then have "JSON_parse (stringify (JArray [JNumber (ustr ''1e400'')])) = Inr (JArray [JNumber (ustr ''1e400'')])"
    by (rule JSON_parse_stringify_wf)
  moreover have "stringify (JArray [JNumber (ustr ''1e400'')]) = ustr ''[1e400]''"
    by (simp add: ustr_def)
  moreover have "ustr ''[1e400]'' \<noteq> []" by (simp add: ustr_def)
  ultimately show ?thesis
    by (simp add: readUploadedFiles_present getItem_def overflow_store_def)
qed

lemma not_plain_1e400: "\<not> plain_integer (ustr ''1e400'')"
proof
  assume "plain_integer (ustr ''1e400'')"
  then obtain n where "ustr ''1e400'' = show_nat n \<or> ustr ''1e400'' = cu CHR ''-'' # show_nat n"
    by (auto simp: plain_integer_def)
  moreover obtain c r where "show_nat n = c # r" "list_all is_digit (c # r)"
    using show_nat_shape [of n] by blast
  ultimately show False
    by (auto simp: ustr_def cu_def is_digit_def)
qed

subsection \<open>Appending a record\<close>

text \<open>
  C8 claims that every write of \<open>saveUploadedFile\<close> leaves the previously stored
  sequence with one record appended, no stored entry removed or changed. Two stored
  values on which it does not. When the value under \<^verbatim>\<open>uploadedFiles\<close> is the string
  \<^verbatim>\<open>"ab"\<close>, the write succeeds and replaces it by a sequence of three entries, the
  strings \<^verbatim>\<open>a\<close> and \<^verbatim>\<open>b\<close> and the record. When it is the sequence \<^verbatim>\<open>[1e400]\<close>,
  whose number is beyond the range of the doubles, the write leaves \<^verbatim>\<open>null\<close> in the
  place of that entry.
\<close>

theorem saveUploadedFile_rewrites_stored_value:
  "readUploadedFiles string_store = Inr (JString (ustr ''ab''))
   \<and> saveUploadedFile example_platform example_fileData string_store
       = Inr [''uploadedFiles'' \<mapsto> ustr ''[\"a\",\"b\",'' @ example_record_text @ ustr '']'']
   \<and> readUploadedFiles overflow_store = Inr (JArray [JNumber (ustr ''1e400'')])
   \<and> saveUploadedFile example_platform example_fileData overflow_store
       = Inr [''uploadedFiles'' \<mapsto> ustr ''[null,'' @ example_record_text @ ustr '']'']"
proof -
  have "spread (JString (ustr ''ab'')) = Inr [JString (ustr ''a''), JString (ustr ''b'')]"
    by (simp add: spread_def code_points_ab)
  with string_store_read
  have "saveUploadedFile example_platform example_fileData string_store
       = Inr (setItem string_store ''uploadedFiles'' (JSON_stringify example_platform
           (JArray ([JString (ustr ''a''), JString (ustr ''b'')] @ [fileData_json example_fileData]))))"
    unfolding saveUploadedFile_Inr by blast
  moreover have "JSON_stringify example_platform
           (JArray ([JString (ustr ''a''), JString (ustr ''b'')] @ [fileData_json example_fileData]))
         = ustr ''[\"a\",\"b\",'' @ example_record_text @ ustr '']''"
    by (simp add: JSON_stringify_def example_fileData_plain example_record_stringify quote_file_strings)
       (simp add: ustr_def)
  ultimately have 1: "saveUploadedFile example_platform example_fileData string_store
       = Inr [''uploadedFiles'' \<mapsto> ustr ''[\"a\",\"b\",'' @ example_record_text @ ustr '']'']"
    by (simp add: setItem_def string_store_def)
  have "spread (JArray [JNumber (ustr ''1e400'')]) = Inr [JNumber (ustr ''1e400'')]"
    by (simp add: spread_def)
  with overflow_store_read
  have "saveUploadedFile example_platform example_fileData overflow_store
       = Inr (setItem overflow_store ''uploadedFiles'' (JSON_stringify example_platform
           (JArray ([JNumber (ustr ''1e400'')] @ [fileData_json example_fileData]))))"
    unfolding saveUploadedFile_Inr by blast
  moreover have "JSON_stringify example_platform
           (JArray ([JNumber (ustr ''1e400'')] @ [fileData_json example_fileData]))
         = ustr ''[null,'' @ example_record_text @ ustr '']''"
    by (simp add: JSON_stringify_def example_fileData_plain example_record_stringify
          example_platform_simps example_format_def not_plain_1e400)
       (simp add: ustr_def)
  ultimately have 2: "saveUploadedFile example_platform example_fileData overflow_store
       = Inr [''uploadedFiles'' \<mapsto> ustr ''[null,'' @ example_record_text @ ustr '']'']"
    by (simp add: setItem_def overflow_store_def)
  from 1 2 string_store_read overflow_store_read show ?thesis by simp
qed

text \<open>
  C8, as the code has it. Whenever the value stored under \<^verbatim>\<open>uploadedFiles\<close> is a
  sequence (or the key is absent or empty, which reads as the empty sequence),
  \<open>saveUploadedFile\<close> succeeds, and reading the store afterwards yields a sequence
  with one entry more: the stored entries, each in its place and as
  \<^verbatim>\<open>JSON.stringify\<close> writes it, followed by the new record; no other key changes. An
  entry all of whose numbers are plain integers is written as it stands, and so is the
  record of a file of fewer than \<open>2\<^sup>5\<^sup>3\<close> bytes: on such a sequence the write leaves
  exactly the stored sequence followed by the record, which is again such a sequence.
  Every write \<open>saveUploadedFile\<close> performs is of this kind, or its like on a stored
  string, whose characters are taken for the stored entries.
\<close>

theorem saveUploadedFile_appends:
  "(readUploadedFiles ls = Inr (JArray xs) \<longrightarrow>
      (\<exists>ls'. saveUploadedFile pf fd ls = Inr ls'
         \<and> ls' = setItem ls ''uploadedFiles'' (JSON_stringify pf (JArray (xs @ [fileData_json fd])))
         \<and> readUploadedFiles ls' = Inr (JArray (map (as_written pf) xs @ [as_written pf (fileData_json fd)]))
         \<and> (\<forall>x \<in> set xs. plain_numbers x \<longrightarrow> as_written pf x = x)
         \<and> (fd_size fd \<le> 9007199254740991 \<longrightarrow> as_written pf (fileData_json fd) = fileData_json fd)
         \<and> (plain_elements xs \<and> fd_size fd \<le> 9007199254740991 \<longrightarrow>
              readUploadedFiles ls' = Inr (JArray (xs @ [fileData_json fd]))
              \<and> plain_elements (xs @ [fileData_json fd]))
         \<and> (\<forall>k. k \<noteq> ''uploadedFiles'' \<longrightarrow> getItem ls' k = getItem ls k)))
   \<and> (saveUploadedFile pf fd ls = Inr ls'' \<longrightarrow>
      (\<exists>v ys. readUploadedFiles ls = Inr v
         \<and> (v = JArray ys \<or> (\<exists>s. v = JString s \<and> ys = map JString (code_points s)))
         \<and> readUploadedFiles ls'' = Inr (JArray (map (as_written pf) ys @ [as_written pf (fileData_json fd)]))
         \<and> (\<forall>k. k \<noteq> ''uploadedFiles'' \<longrightarrow> getItem ls'' k = getItem ls k)))"
proof (intro conjI impI)
  assume a: "readUploadedFiles ls = Inr (JArray xs)"
  have sp: "spread (JArray xs) = Inr xs" by (simp add: spread_def)
  let ?ls' = "setItem ls ''uploadedFiles'' (JSON_stringify pf (JArray (xs @ [fileData_json fd])))"
  have 1: "saveUploadedFile pf fd ls = Inr ?ls'"
    unfolding saveUploadedFile_Inr using a sp by blast
  have 2: "readUploadedFiles ?ls' = Inr (JArray (map (as_written pf) xs @ [as_written pf (fileData_json fd)]))"
    using a sp by (rule readUploadedFiles_after)
  have 3: "\<forall>x \<in> set xs. plain_numbers x \<longrightarrow> as_written pf x = x"
    by (simp add: as_written_plain)
  have 4: "fd_size fd \<le> 9007199254740991 \<longrightarrow> as_written pf (fileData_json fd) = fileData_json fd"
    by (simp add: as_written_plain plain_fileData_json)
  have 5: "plain_elements xs \<and> fd_size fd \<le> 9007199254740991 \<longrightarrow>
              readUploadedFiles ?ls' = Inr (JArray (xs @ [fileData_json fd]))
              \<and> plain_elements (xs @ [fileData_json fd])"
    using 2 as_written_plain(2) [of xs pf]
    by (simp add: written_elements_map as_written_plain plain_fileData_json plain_elements_append)
  have 6: "\<forall>k. k \<noteq> ''uploadedFiles'' \<longrightarrow> getItem ?ls' k = getItem ls k"
    by (simp add: getItem_def setItem_def)
  from 1 2 3 4 5 6
  show "\<exists>ls'. saveUploadedFile pf fd ls = Inr ls'
         \<and> ls' = setItem ls ''uploadedFiles'' (JSON_stringify pf (JArray (xs @ [fileData_json fd])))
         \<and> readUploadedFiles ls' = Inr (JArray (map (as_written pf) xs @ [as_written pf (fileData_json fd)]))
         \<and> (\<forall>x \<in> set xs. plain_numbers x \<longrightarrow> as_written pf x = x)
         \<and> (fd_size fd \<le> 9007199254740991 \<longrightarrow> as_written pf (fileData_json fd) = fileData_json fd)
         \<and> (plain_elements xs \<and> fd_size fd \<le> 9007199254740991 \<longrightarrow>
              readUploadedFiles ls' = Inr (JArray (xs @ [fileData_json fd]))
              \<and> plain_elements (xs @ [fileData_json fd]))
         \<and> (\<forall>k. k \<noteq> ''uploadedFiles'' \<longrightarrow> getItem ls' k = getItem ls k)"
    by (intro exI [of _ ?ls']) simp
next
  assume "saveUploadedFile pf fd ls = Inr ls''"
  then obtain v ys where v: "readUploadedFiles ls = Inr v" and sp: "spread v = Inr ys"
    and ls'': "ls'' = setItem ls ''uploadedFiles'' (JSON_stringify pf (JArray (ys @ [fileData_json fd])))"
    unfolding saveUploadedFile_Inr by blast
  have shape: "v = JArray ys \<or> (\<exists>s. v = JString s \<and> ys = map JString (code_points s))"
    using sp by (simp add: spread_Inr)
  have "readUploadedFiles ls'' = Inr (JArray (map (as_written pf) ys @ [as_written pf (fileData_json fd)]))"
    unfolding ls'' using v sp by (rule readUploadedFiles_after)
  moreover have "\<forall>k. k \<noteq> ''uploadedFiles'' \<longrightarrow> getItem ls'' k = getItem ls k"
    by (simp add: ls'' getItem_def setItem_def)
  ultimately show "\<exists>v ys. readUploadedFiles ls = Inr v
         \<and> (v = JArray ys \<or> (\<exists>s. v = JString s \<and> ys = map JString (code_points s)))
         \<and> readUploadedFiles ls'' = Inr (JArray (map (as_written pf) ys @ [as_written pf (fileData_json fd)]))
         \<and> (\<forall>k. k \<noteq> ''uploadedFiles'' \<longrightarrow> getItem ls'' k = getItem ls k)"
    using v shape by blast
qed

theorem saveUploadedFile_appends_witness:
  "readUploadedFiles [''uploadedFiles'' \<mapsto> example_files_text] = Inr (JArray [fileData_json example_fileData])
   \<and> plain_elements [fileData_json example_fileData] \<and> fd_size example_fileData \<le> 9007199254740991
   \<and> saveUploadedFile example_platform example_fileData [''uploadedFiles'' \<mapsto> example_files_text]
       = Inr [''uploadedFiles'' \<mapsto> JSON_stringify example_platform
               (JArray [fileData_json example_fileData, fileData_json example_fileData])]
   \<and> readUploadedFiles [''uploadedFiles'' \<mapsto> JSON_stringify example_platform
               (JArray [fileData_json example_fileData, fileData_json example_fileData])]
       = Inr (JArray [fileData_json example_fileData, fileData_json example_fileData])
   \<and> readUploadedFiles Map.empty = Inr (JArray [])
   \<and> saveUploadedFile example_platform example_fileData Map.empty = Inr [''uploadedFiles'' \<mapsto> example_files_text]"
proof -
  have r: "readUploadedFiles Map.empty = Inr (JArray [])"
    by (simp add: readUploadedFiles_absent getItem_def)
  have p: "plain_elements [fileData_json example_fileData]" "fd_size example_fileData \<le> 9007199254740991"
    by (simp_all add: example_fileData_plain)
  from saveUploadedFile_appends [of Map.empty "[]" example_platform example_fileData undefined] r
  have a: "saveUploadedFile example_platform example_fileData Map.empty = Inr [''uploadedFiles'' \<mapsto> example_files_text]"
    by (auto simp: example_files_stringify setItem_def)
  from saveUploadedFile_appends [of "[''uploadedFiles'' \<mapsto> example_files_text]"
        "[fileData_json example_fileData]" example_platform example_fileData undefined]
    example_files_read p
  have b: "saveUploadedFile example_platform example_fileData [''uploadedFiles'' \<mapsto> example_files_text]
       = Inr [''uploadedFiles'' \<mapsto> JSON_stringify example_platform
               (JArray [fileData_json example_fileData, fileData_json example_fileData])]"
    and c: "readUploadedFiles [''uploadedFiles'' \<mapsto> JSON_stringify example_platform
               (JArray [fileData_json example_fileData, fileData_json example_fileData])]
       = Inr (JArray [fileData_json example_fileData, fileData_json example_fileData])"
    by (auto simp: setItem_def)
  from a b c r p example_files_read show ?thesis by simp
qed

section \<open>The simulated upload\<close>

subsection \<open>One tick\<close>



lemma next_progress_values:
  "next_progress pf 0 0 = 0" "next_progress pf 0 (1/2) = 5" "next_progress pf 95 (1/2) = 100"
  by (simp_all add: next_progress_def double_of_small)

lemma next_progress_example: "next_progress example_platform p r = p + r * 10"
  by (simp add: next_progress_def example_platform_simps)

lemma tick_Some:
  assumes "tick pf i r st = Some st'"
  shows "i < length (intervals st)" "iv_active (intervals st ! i)" "iv_due (intervals st ! i) \<le> clock st"
  using assms by (auto simp: tick_def split: if_splits)


lemma tick_entries:
  assumes "tick pf i r st = Some st'"
  shows "uploadingFiles st' =
           map (\<lambda>u. if uf_id u = iv_fileId (intervals st ! i)
                     then (if 100 \<le> next_progress pf (iv_progress (intervals st ! i)) r
                           then u\<lparr>progress := 100, status := Complete\<rparr>
                           else u\<lparr>progress := next_progress pf (iv_progress (intervals st ! i)) r\<rparr>)
                     else u) (uploadingFiles st)"
  using assms by (auto simp: tick_def Let_def split: if_splits sum.splits)

lemma tick_clock: "tick pf i r st = Some st' \<Longrightarrow> clock st' = clock st"
  by (auto simp: tick_def Let_def split: if_splits sum.splits)

lemma tick_timeouts: "tick pf i r st = Some st' \<Longrightarrow> set (timeouts st) \<subseteq> set (timeouts st')"
  by (auto simp: tick_def Let_def split: if_splits sum.splits)


lemma tick_enabled:
  "i < length (intervals st) \<Longrightarrow> iv_active (intervals st ! i) \<Longrightarrow> iv_due (intervals st ! i) \<le> clock st
     \<Longrightarrow> \<exists>st'. tick pf i r st = Some st'"
  by (simp add: tick_def Let_def split: sum.splits)

subsection \<open>Timers in the states the component can reach\<close>








lemma run_append:
  "run pf (es @ es') st = (case run pf es st of None \<Rightarrow> None | Some st' \<Rightarrow> run pf es' st')"
  by (induction es arbitrary: st) (auto split: option.splits)

lemma run_without_run: "run_without bad pf es st = Some st' \<Longrightarrow> run pf es st = Some st'"
  by (induction es arbitrary: st) (auto split: option.splits if_splits)

subsection \<open>The entries of a file between the events that bear on them\<close>



text \<open>
  As long as nothing removes the entries with a file id, those of them that are complete
  stay in the list, in their order and complete, and a removal pending for that id
  stays pending.
\<close>

lemma filter_other:
  "k \<noteq> fid \<Longrightarrow> filter (\<lambda>u. uf_id u \<noteq> k \<and> uf_id u = fid) xs = filter (\<lambda>u. uf_id u = fid) xs"
  by (induction xs) auto

lemma filter_map_id:
  "(\<And>u. uf_id (h u) = uf_id u) \<Longrightarrow>
     filter (\<lambda>u. uf_id u = fid) (map h xs) = map h (filter (\<lambda>u. uf_id u = fid) xs)"
  by (induction xs) auto

lemma complete_prefix_map:
  assumes "\<And>u. uf_file (h u) = uf_file u" "\<And>u. status u = Complete \<Longrightarrow> status (h u) = Complete"
    and "map (\<lambda>u. (uf_file u, status u)) ys = base @ rest" "\<forall>x \<in> set base. snd x = Complete"
  shows "\<exists>rest'. map (\<lambda>u. (uf_file u, status u)) (map h ys) = base @ rest'"
  using assms(3,4)
proof (induction base arbitrary: ys)
  case Nil
  then show ?case by simp
next
  case (Cons b bs)
  then obtain y ys' where ys: "ys = y # ys'" and y: "(uf_file y, status y) = b"
    and r: "map (\<lambda>u. (uf_file u, status u)) ys' = bs @ rest"
    by (cases ys) auto
  from Cons.prems(2) y have "status y = Complete" by auto
  then have "(uf_file (h y), status (h y)) = b" using y assms(1,2) by auto
  moreover from Cons.IH [OF r] Cons.prems(2)
  obtain rest' where "map (\<lambda>u. (uf_file u, status u)) (map h ys') = bs @ rest'" by auto
  ultimately show ?case by (simp add: ys)
qed

lemma step_keeps_entries:
  assumes "step pf e st = Some st1" "\<not> removes_file fid e st"
    and "map (\<lambda>u. (uf_file u, status u)) (filter (\<lambda>u. uf_id u = fid) (uploadingFiles st)) = base @ rest"
    and "\<forall>x \<in> set base. snd x = Complete"
  shows "\<exists>rest'. map (\<lambda>u. (uf_file u, status u)) (filter (\<lambda>u. uf_id u = fid) (uploadingFiles st1))
            = base @ rest'"
proof (cases e)
  case (Tick i r)
  with assms have t: "tick pf i r st = Some st1" by (simp split: if_splits)
  let ?h = "\<lambda>u. if uf_id u = iv_fileId (intervals st ! i)
                     then (if 100 \<le> next_progress pf (iv_progress (intervals st ! i)) r
                           then u\<lparr>progress := 100, status := Complete\<rparr>
                           else u\<lparr>progress := next_progress pf (iv_progress (intervals st ! i)) r\<rparr>)
                     else u"
  have "filter (\<lambda>u. uf_id u = fid) (map ?h (uploadingFiles st))
          = map ?h (filter (\<lambda>u. uf_id u = fid) (uploadingFiles st))"
    by (rule filter_map_id) auto
  moreover have "\<exists>rest'. map (\<lambda>u. (uf_file u, status u))
                    (map ?h (filter (\<lambda>u. uf_id u = fid) (uploadingFiles st))) = base @ rest'"
    by (rule complete_prefix_map [OF _ _ assms(3,4)]) auto
  ultimately show ?thesis unfolding tick_entries [OF t] by simp
next
  case (FileSelect files)
  with assms show ?thesis
    by (auto simp: handleFileSelect_def Let_def split: option.splits if_splits)
next
  case (TimeoutFires j)
  with assms show ?thesis
    by (auto simp: fire_timeout_def filter_other split: if_splits)
next
  case (RemoveFile k)
  with assms show ?thesis
    by (auto simp: removeFile_def filter_other)
next
  case (Advance dt)
  with assms show ?thesis by auto
qed

lemma in_set_remove_nth:
  assumes "x \<in> set xs" "x \<noteq> xs ! j"
  shows "x \<in> set (take j xs @ drop (Suc j) xs)"
proof (cases "j < length xs")
  case True
  from assms(1) have "x \<in> set (take j xs @ xs ! j # drop (Suc j) xs)"
    by (simp only: id_take_nth_drop [OF True, symmetric])
  with assms(2) show ?thesis by auto
next
  case False
  with assms(1) show ?thesis by simp
qed

lemma step_keeps_timeout:
  assumes "step pf e st = Some st1" "\<not> removes_file fid e st"
    and "t \<in> set (timeouts st)" "to_fileId t = fid"
  shows "t \<in> set (timeouts st1)"
proof (cases e)
  case (Tick i r)
  with assms have "tick pf i r st = Some st1" by (simp split: if_splits)
  from tick_timeouts [OF this] assms(3) show ?thesis by auto
next
  case (TimeoutFires j)
  with assms have j: "j < length (timeouts st)"
    and st1: "timeouts st1 = take j (timeouts st) @ drop (Suc j) (timeouts st)"
    by (auto simp: fire_timeout_def split: if_splits)
  with assms(2,4) TimeoutFires have "t \<noteq> timeouts st ! j" by auto
  with assms(3) show ?thesis unfolding st1 by (rule in_set_remove_nth)
next
  case (FileSelect files)
  with assms show ?thesis
    by (auto simp: handleFileSelect_def Let_def split: option.splits if_splits)
qed (use assms in \<open>auto simp: removeFile_def\<close>)

lemma run_keeps:
  assumes "run_without (removes_file fid) pf es st = Some st2"
    and "map (\<lambda>u. (uf_file u, status u)) (filter (\<lambda>u. uf_id u = fid) (uploadingFiles st)) = base @ rest"
    and "\<forall>x \<in> set base. snd x = Complete"
    and "t \<in> set (timeouts st)" "to_fileId t = fid"
  shows "(\<exists>rest'. map (\<lambda>u. (uf_file u, status u)) (filter (\<lambda>u. uf_id u = fid) (uploadingFiles st2))
            = base @ rest')
         \<and> t \<in> set (timeouts st2)"
  using assms(1,2,4)
proof (induction es arbitrary: st rest)
  case Nil
  then show ?case by auto
next
  case (Cons e es)
  then obtain st1 where b: "\<not> removes_file fid e st" and s: "step pf e st = Some st1"
    and r: "run_without (removes_file fid) pf es st1 = Some st2"
    by (auto split: option.splits if_splits)
  from step_keeps_entries [OF s b Cons.prems(2) assms(3)] obtain rest1 where
    "map (\<lambda>u. (uf_file u, status u)) (filter (\<lambda>u. uf_id u = fid) (uploadingFiles st1)) = base @ rest1"
    by blast
  moreover have "t \<in> set (timeouts st1)"
    using s b Cons.prems(3) assms(5) by (rule step_keeps_timeout)
  ultimately show ?case using Cons.IH [OF r] by blast
qed

lemma fire_timeout_due:
  assumes "j < length (timeouts st2)"
  shows "clock st2 < to_due (timeouts st2 ! j) \<Longrightarrow> fire_timeout j st2 = None"
    and "to_due (timeouts st2 ! j) \<le> clock st2 \<Longrightarrow>
           fire_timeout j st2 =
             Some (st2\<lparr>uploadingFiles := filter (\<lambda>u. uf_id u \<noteq> to_fileId (timeouts st2 ! j)) (uploadingFiles st2),
                       timeouts := take j (timeouts st2) @ drop (Suc j) (timeouts st2)\<rparr>)"
  using assms by (simp_all add: fire_timeout_def)

subsection \<open>Example uploads\<close>

lemma show_nat_1000: "show_nat 1000 = ustr ''1000''"
  by (simp add: show_nat.simps ustr_def cu_def)


lemma example_tick: "\<exists>st'. tick pf 0 r (ticking_state p) = Some st'"
  by (rule tick_enabled) (simp_all add: ticking_state_def example_interval_def)

lemma example_uploaded_record:
  "uploaded_record (ustr ''a.txt-1000'') example_file 1200 = example_fileData"
  by (simp add: uploaded_record_def example_file_def example_fileData_def)

lemma ticking_state_simps:
  "intervals (ticking_state p) ! 0 = example_interval p" "clock (ticking_state p) = 1200"
  "localStorage (ticking_state p) = Map.empty" "timeouts (ticking_state p) = []"
  "iv_progress (example_interval p) = p" "iv_fileId (example_interval p) = ustr ''a.txt-1000''"
  "iv_file (example_interval p) = example_file"
  "uploadingFiles (ticking_state p) = [example_entry p Uploading]"
  by (simp_all add: ticking_state_def example_interval_def)


lemma save_malformed: "saveUploadedFile pf fd malformed_store = Inl SyntaxError"
  by (simp add: saveUploadedFile_raises malformed_reads)

lemma eleven_ticks:
  "concat (replicate 11 tick_first) =
    [Advance 200, Tick 0 (15/16), Advance 200, Tick 0 (15/16), Advance 200, Tick 0 (15/16),
     Advance 200, Tick 0 (15/16), Advance 200, Tick 0 (15/16), Advance 200, Tick 0 (15/16),
     Advance 200, Tick 0 (15/16), Advance 200, Tick 0 (15/16), Advance 200, Tick 0 (15/16),
     Advance 200, Tick 0 (15/16), Advance 200, Tick 0 (15/16)]"
  by (simp add: tick_first_def numeral_eq_Suc)

lemma single_run_malformed:
  "run example_platform single_events (initial 1000 malformed_store) = Some stuck_state"
  unfolding single_events_def eleven_ticks stuck_state_def
  by (simp add: handleFileSelect_def initial_def new_upload_def simulateFileUpload_def
        example_entry_def example_interval_def show_nat_1000 tick_def Let_def
        next_progress_example save_malformed)
     (simp add: example_file_def ustr_def)



subsection \<open>Progress ticks\<close>




subsection \<open>Completion\<close>

lemma tick_completes:
  assumes "tick pf i r st = Some st'"
    and "100 \<le> next_progress pf (iv_progress (intervals st ! i)) r"
    and "readUploadedFiles (localStorage st) = Inr v" and "spread v = Inr xs"
  shows "st' = st\<lparr>intervals := (intervals st)[i := (intervals st ! i)\<lparr>iv_progress := 100, iv_active := False\<rparr>],
                 uploadingFiles := map (\<lambda>u. if uf_id u = iv_fileId (intervals st ! i)
                                            then u\<lparr>progress := 100, status := Complete\<rparr> else u)
                                      (uploadingFiles st),
                 localStorage := setItem (localStorage st) ''uploadedFiles''
                    (JSON_stringify pf (JArray (xs @ [fileData_json
                       (uploaded_record (iv_fileId (intervals st ! i)) (iv_file (intervals st ! i)) (clock st))]))),
                 toasts := toasts st @ [''File uploaded successfully''],
                 timeouts := timeouts st @ [\<lparr>to_fileId = iv_fileId (intervals st ! i), to_due = clock st + 2000\<rparr>]\<rparr>"
proof -
  let ?fd = "uploaded_record (iv_fileId (intervals st ! i)) (iv_file (intervals st ! i)) (clock st)"
  have sv: "saveUploadedFile pf ?fd (localStorage st)
      = Inr (setItem (localStorage st) ''uploadedFiles'' (JSON_stringify pf (JArray (xs @ [fileData_json ?fd]))))"
    unfolding saveUploadedFile_Inr using assms(3,4) by blast
  have m: "(\<lambda>u. if uf_id u = k then u\<lparr>progress := 100\<rparr> else u)
             \<circ> (\<lambda>u. if uf_id u = k then u\<lparr>progress := 100, status := Complete\<rparr> else u)
           = (\<lambda>u::UploadingFile. if uf_id u = k then u\<lparr>progress := 100, status := Complete\<rparr> else u)" for k
    by (auto simp: fun_eq_iff)
  show ?thesis
    using assms(1,2) by (auto simp: tick_def Let_def sv m split: if_splits)
qed

lemma tick_fails:
  assumes "tick pf i r st = Some st'"
    and "100 \<le> next_progress pf (iv_progress (intervals st ! i)) r"
    and "saveUploadedFile pf (uploaded_record (iv_fileId (intervals st ! i)) (iv_file (intervals st ! i)) (clock st))
           (localStorage st) = Inl e"
  shows "localStorage st' = localStorage st" "timeouts st' = timeouts st" "uncaught st' = uncaught st @ [e]"
  using assms by (auto simp: tick_def Let_def split: if_splits)

lemma uploaded_record_fields:
  "get_prop (as_written pf (fileData_json (uploaded_record fileId f now))) (ustr ''name'')
     = Some (JString (file_name f))"
  "get_prop (as_written pf (fileData_json (uploaded_record fileId f now))) (ustr ''type'')
     = Some (JString (file_type f))"
  "get_prop (as_written pf (fileData_json (uploaded_record fileId f now))) (ustr ''size'')
     = Some (as_written pf (JNumber (show_nat (file_size f))))"
  "get_prop (as_written pf (fileData_json (uploaded_record fileId f now))) (ustr ''isFolder'')
     = Some (JBool False)"
  by (simp_all add: get_prop_def fileData_json_def uploaded_record_def ustr_def cu_def)

lemma written_size: "n \<le> 9007199254740991 \<Longrightarrow> as_written pf (JNumber (show_nat n)) = JNumber (show_nat n)"
  by (rule as_written_plain) (simp add: plain_show_nat)

text \<open>
  C7 claims that whenever a file's progress reaches 100 a record is appended to the
  stored list and the entry is removed 2000 ms later. When the value stored under
  \<^verbatim>\<open>uploadedFiles\<close> cannot be read it is not so: with the text \<^verbatim>\<open>not json\<close> there,
  eleven ticks after \<^verbatim>\<open>a.txt\<close> was selected its entry is complete at 100, the store is
  what it was, the SyntaxError of the read has left the timer callback uncaught, and no
  removal is pending, so that the entry stays in the list.
\<close>

theorem completion_on_malformed_store:
  "readUploadedFiles malformed_store = Inl SyntaxError
   \<and> run example_platform single_events (initial 1000 malformed_store) = Some stuck_state
   \<and> map progress (uploadingFiles stuck_state) = [100]
   \<and> map status (uploadingFiles stuck_state) = [Complete]
   \<and> localStorage stuck_state = malformed_store
   \<and> timeouts stuck_state = []
   \<and> uncaught stuck_state = [SyntaxError]"
  using malformed_reads(2) single_run_malformed
  by (simp add: stuck_state_def example_entry_def)

text \<open>
  C7, as the code has it: when a tick takes a file's progress to 100 and the value
  stored under \<^verbatim>\<open>uploadedFiles\<close> can be read and spread (it is a sequence, as whenever
  only this component has written it, or the key is absent; or it is a string, whose
  characters are taken for the entries), reading the store afterwards yields the stored
  entries, as \<^verbatim>\<open>JSON.stringify\<close> writes them, followed by exactly one new record,
  whose name, type and size are those of the file handle and whose \<^verbatim>\<open>isFolder\<close> is
  false. The list keeps its entries, those with the file's id now with status complete
  and progress 100; the timer is cleared; the removal of the entries with that id is
  pending, due 2000 ms later. As long as nothing else removes the entries with that id
  (the user, or the removal pending for another upload under the same id), they stay in
  the list, in their order and complete, and the removal stays pending. Before its time
  the removal cannot run; from that time on it can, and it leaves the list without the
  entries of that id.
\<close>

theorem upload_completes:
  assumes "tick pf i r st = Some st'"
    and "100 \<le> next_progress pf (iv_progress (intervals st ! i)) r"
    and "readUploadedFiles (localStorage st) = Inr v" and "spread v = Inr xs"
  shows "readUploadedFiles (localStorage st') =
           Inr (JArray (map (as_written pf) xs @ [as_written pf (fileData_json
              (uploaded_record (iv_fileId (intervals st ! i)) (iv_file (intervals st ! i)) (clock st)))]))
       \<and> (v = JArray xs \<or> (\<exists>s. v = JString s \<and> xs = map JString (code_points s)))
       \<and> get_prop (as_written pf (fileData_json
              (uploaded_record (iv_fileId (intervals st ! i)) (iv_file (intervals st ! i)) (clock st))))
            (ustr ''name'') = Some (JString (file_name (iv_file (intervals st ! i))))
       \<and> get_prop (as_written pf (fileData_json
              (uploaded_record (iv_fileId (intervals st ! i)) (iv_file (intervals st ! i)) (clock st))))
            (ustr ''type'') = Some (JString (file_type (iv_file (intervals st ! i))))
       \<and> get_prop (as_written pf (fileData_json
              (uploaded_record (iv_fileId (intervals st ! i)) (iv_file (intervals st ! i)) (clock st))))
            (ustr ''size'') = Some (as_written pf (JNumber (show_nat (file_size (iv_file (intervals st ! i))))))
       \<and> (file_size (iv_file (intervals st ! i)) \<le> 9007199254740991 \<longrightarrow>
            as_written pf (JNumber (show_nat (file_size (iv_file (intervals st ! i)))))
              = JNumber (show_nat (file_size (iv_file (intervals st ! i)))))
       \<and> get_prop (as_written pf (fileData_json
              (uploaded_record (iv_fileId (intervals st ! i)) (iv_file (intervals st ! i)) (clock st))))
            (ustr ''isFolder'') = Some (JBool False)
       \<and> map uf_id (uploadingFiles st') = map uf_id (uploadingFiles st)
       \<and> (\<forall>u \<in> set (uploadingFiles st'). uf_id u = iv_fileId (intervals st ! i)
             \<longrightarrow> status u = Complete \<and> progress u = 100)
       \<and> \<not> iv_active (intervals st' ! i)
       \<and> clock st' = clock st
       \<and> timeouts st' = timeouts st @ [\<lparr>to_fileId = iv_fileId (intervals st ! i), to_due = clock st + 2000\<rparr>]
       \<and> (\<forall>es st2. run_without (removes_file (iv_fileId (intervals st ! i))) pf es st' = Some st2 \<longrightarrow>
            (\<exists>later. map (\<lambda>u. (uf_file u, status u))
                        (filter (\<lambda>u. uf_id u = iv_fileId (intervals st ! i)) (uploadingFiles st2))
                 = map (\<lambda>u. (uf_file u, Complete))
                        (filter (\<lambda>u. uf_id u = iv_fileId (intervals st ! i)) (uploadingFiles st)) @ later)
            \<and> (\<exists>j < length (timeouts st2).
                 timeouts st2 ! j = \<lparr>to_fileId = iv_fileId (intervals st ! i), to_due = clock st + 2000\<rparr>))
       \<and> (\<forall>st2 j. j < length (timeouts st2)
             \<and> timeouts st2 ! j = \<lparr>to_fileId = iv_fileId (intervals st ! i), to_due = clock st + 2000\<rparr>
             \<longrightarrow> (clock st2 < clock st + 2000 \<longrightarrow> fire_timeout j st2 = None)
               \<and> (clock st + 2000 \<le> clock st2 \<longrightarrow>
                    fire_timeout j st2 =
                      Some (st2\<lparr>uploadingFiles :=
                                  filter (\<lambda>u. uf_id u \<noteq> iv_fileId (intervals st ! i)) (uploadingFiles st2),
                                timeouts := take j (timeouts st2) @ drop (Suc j) (timeouts st2)\<rparr>)
                    \<and> (\<forall>u \<in> set (filter (\<lambda>u. uf_id u \<noteq> iv_fileId (intervals st ! i)) (uploadingFiles st2)).
                          uf_id u \<noteq> iv_fileId (intervals st ! i))))"
proof -
  let ?id = "iv_fileId (intervals st ! i)"
  let ?f = "iv_file (intervals st ! i)"
  let ?rec = "fileData_json (uploaded_record ?id ?f (clock st))"
  let ?t = "\<lparr>to_fileId = ?id, to_due = clock st + 2000\<rparr>"
  let ?base = "map (\<lambda>u. (uf_file u, Complete)) (filter (\<lambda>u. uf_id u = ?id) (uploadingFiles st))"
  note st' = tick_completes [OF assms]
  have i: "i < length (intervals st)" using tick_Some(1) [OF assms(1)] .
  have 1: "readUploadedFiles (localStorage st') = Inr (JArray (map (as_written pf) xs @ [as_written pf ?rec]))"
    using readUploadedFiles_after [OF assms(3,4)] by (subst st') simp
  have v1: "v = JArray xs \<or> (\<exists>s. v = JString s \<and> xs = map JString (code_points s))"
    using assms(4) by (simp add: spread_Inr)
  have z1: "file_size ?f \<le> 9007199254740991 \<longrightarrow>
              as_written pf (JNumber (show_nat (file_size ?f))) = JNumber (show_nat (file_size ?f))"
    using written_size [of "file_size ?f" pf] by blast
  have 2: "map uf_id (uploadingFiles st') = map uf_id (uploadingFiles st)"
    by (subst st') (simp add: comp_def if_distrib cong: if_cong)
  have 3: "\<forall>u \<in> set (uploadingFiles st'). uf_id u = ?id \<longrightarrow> status u = Complete \<and> progress u = 100"
    by (subst st') auto
  have 4: "\<not> iv_active (intervals st' ! i)"
    using i by (subst st') simp
  have c4: "clock st' = clock st" using assms(1) by (rule tick_clock)
  have 5: "timeouts st' = timeouts st @ [?t]"
    by (subst st') simp
  have e: "map (\<lambda>u. (uf_file u, status u)) (filter (\<lambda>u. uf_id u = ?id) (uploadingFiles st')) = ?base @ []"
  proof -
    have "filter (\<lambda>u. uf_id u = ?id) (uploadingFiles st')
            = map (\<lambda>u. if uf_id u = ?id then u\<lparr>progress := 100, status := Complete\<rparr> else u)
                (filter (\<lambda>u. uf_id u = ?id) (uploadingFiles st))"
      by (subst st') (simp add: filter_map_id)
    then show ?thesis by (simp add: comp_def cong: map_cong)
  qed
  have b: "\<forall>x \<in> set ?base. snd x = Complete" by auto
  have t: "?t \<in> set (timeouts st')" "to_fileId ?t = ?id" by (simp_all add: 5)
  have 6: "(\<exists>later. map (\<lambda>u. (uf_file u, status u)) (filter (\<lambda>u. uf_id u = ?id) (uploadingFiles st2))
               = ?base @ later)
           \<and> (\<exists>j < length (timeouts st2). timeouts st2 ! j = ?t)"
    if "run_without (removes_file ?id) pf es st' = Some st2" for es st2
    using run_keeps [OF that e b t] by (auto simp: in_set_conv_nth)
  have 7: "(clock st2 < clock st + 2000 \<longrightarrow> fire_timeout j st2 = None)
           \<and> (clock st + 2000 \<le> clock st2 \<longrightarrow>
                 fire_timeout j st2 =
                   Some (st2\<lparr>uploadingFiles := filter (\<lambda>u. uf_id u \<noteq> ?id) (uploadingFiles st2),
                             timeouts := take j (timeouts st2) @ drop (Suc j) (timeouts st2)\<rparr>)
                 \<and> (\<forall>u \<in> set (filter (\<lambda>u. uf_id u \<noteq> ?id) (uploadingFiles st2)). uf_id u \<noteq> ?id))"
    if "j < length (timeouts st2)" "timeouts st2 ! j = ?t" for st2 j
    using fire_timeout_due [OF that(1)] that(2) by simp
  show ?thesis
    using 1 v1 z1 2 3 4 c4 5 6 7 uploaded_record_fields [of pf ?id ?f "clock st"] by blast
qed

theorem upload_completes_witness:
  "tick example_platform 0 (1/2) (ticking_state 95)
     = Some (the (tick example_platform 0 (1/2) (ticking_state 95)))
   \<and> 100 \<le> next_progress example_platform (iv_progress (intervals (ticking_state 95) ! 0)) (1/2)
   \<and> readUploadedFiles (localStorage (ticking_state 95)) = Inr (JArray [])
   \<and> spread (JArray []) = Inr []
   \<and> readUploadedFiles (localStorage (the (tick example_platform 0 (1/2) (ticking_state 95))))
       = Inr (JArray [fileData_json example_fileData])
   \<and> map uf_id (uploadingFiles (the (tick example_platform 0 (1/2) (ticking_state 95)))) = [ustr ''a.txt-1000'']
   \<and> timeouts (the (tick example_platform 0 (1/2) (ticking_state 95)))
       = [\<lparr>to_fileId = ustr ''a.txt-1000'', to_due = 3200\<rparr>]
   \<and> fire_timeout 0 (the (tick example_platform 0 (1/2) (ticking_state 95))) = None
   \<and> run_without (removes_file (ustr ''a.txt-1000'')) example_platform [Advance 2000]
         (the (tick example_platform 0 (1/2) (ticking_state 95)))
       = Some ((the (tick example_platform 0 (1/2) (ticking_state 95)))\<lparr>clock := 3200\<rparr>)
   \<and> map status (uploadingFiles ((the (tick example_platform 0 (1/2) (ticking_state 95)))\<lparr>clock := 3200\<rparr>))
       = [Complete]
   \<and> map_option uploadingFiles
         (fire_timeout 0 ((the (tick example_platform 0 (1/2) (ticking_state 95)))\<lparr>clock := 3200\<rparr>))
       = Some []"
proof -
  obtain st' where t: "tick example_platform 0 (1/2) (ticking_state 95) = Some st'"
    using example_tick by blast
  have p: "100 \<le> next_progress example_platform (iv_progress (intervals (ticking_state 95) ! 0)) (1/2)"
    by (simp add: ticking_state_simps next_progress_values)
  have r: "readUploadedFiles (localStorage (ticking_state 95)) = Inr (JArray [])"
    by (simp add: ticking_state_simps readUploadedFiles_absent getItem_def)
  have s: "spread (JArray []) = Inr []" by (simp add: spread_def)
  note c = upload_completes [OF t p r s]
  have 1: "readUploadedFiles (localStorage st') = Inr (JArray [fileData_json example_fileData])"
    using c by (simp add: ticking_state_simps example_uploaded_record example_fileData_plain)
  have 2: "uploadingFiles st' = [example_entry 100 Complete]"
    using tick_entries [OF t] p by (simp add: ticking_state_simps example_entry_def)
  have 3: "timeouts st' = [\<lparr>to_fileId = ustr ''a.txt-1000'', to_due = 3200\<rparr>]"
    using c by (simp add: ticking_state_simps)
  have k: "clock st' = 1200" using c by (simp add: ticking_state_simps)
  from c have d: "\<And>st2 j. j < length (timeouts st2)
             \<and> timeouts st2 ! j = \<lparr>to_fileId = ustr ''a.txt-1000'', to_due = 3200\<rparr>
             \<longrightarrow> (clock st2 < 3200 \<longrightarrow> fire_timeout j st2 = None)
               \<and> (3200 \<le> clock st2 \<longrightarrow>
                    fire_timeout j st2 =
                      Some (st2\<lparr>uploadingFiles :=
                                  filter (\<lambda>u. uf_id u \<noteq> ustr ''a.txt-1000'') (uploadingFiles st2),
                                timeouts := take j (timeouts st2) @ drop (Suc j) (timeouts st2)\<rparr>))"
    by (simp add: ticking_state_simps)
  have 4: "fire_timeout 0 st' = None"
    using d [of 0 st'] 3 k by simp
  have 5: "run_without (removes_file (ustr ''a.txt-1000'')) example_platform [Advance 2000] st'
             = Some (st'\<lparr>clock := 3200\<rparr>)"
    by (simp add: k)
  have 6: "map status (uploadingFiles (st'\<lparr>clock := 3200\<rparr>)) = [Complete]"
    by (simp add: 2 example_entry_def)
  have 7: "map_option uploadingFiles (fire_timeout 0 (st'\<lparr>clock := 3200\<rparr>)) = Some []"
    using d [of 0 "st'\<lparr>clock := 3200\<rparr>"] 3 by (simp add: 2 example_entry_def)
  show ?thesis
    unfolding t option.sel using p r s 1 2 3 4 5 6 7 by (simp add: example_entry_def)
qed

section \<open>The aggregate progress and the ``all uploaded'' flag\<close>




lemma handleFileSelect_Some:
  "fs \<noteq> [] \<Longrightarrow> uploadingFiles (handleFileSelect (Some fs) st)
            = uploadingFiles st @ map (new_upload (clock st)) fs"
  by (simp add: handleFileSelect_def Let_def)

lemma status_new_upload: "status (new_upload now f) = Uploading"
  by (simp add: new_upload_def)

text \<open>
  C9: the ``all uploaded'' flag is true exactly when the transient list is non-empty and
  every entry's status is complete. A non-empty selection appends its files to the list,
  each with status uploading, and so makes the flag false, whatever it was before.
\<close>

theorem allUploaded_iff:
  "(allUploaded ufs \<longleftrightarrow> ufs \<noteq> [] \<and> (\<forall>u \<in> set ufs. status u = Complete))
   \<and> (fs \<noteq> [] \<longrightarrow>
        (\<forall>u \<in> set (map (new_upload (clock st)) fs). status u = Uploading)
        \<and> uploadingFiles (handleFileSelect (Some fs) st)
            = uploadingFiles st @ map (new_upload (clock st)) fs
        \<and> \<not> allUploaded (uploadingFiles (handleFileSelect (Some fs) st)))"
proof (intro conjI impI)
  show "allUploaded ufs \<longleftrightarrow> ufs \<noteq> [] \<and> (\<forall>u \<in> set ufs. status u = Complete)"
    by (simp add: allUploaded_def list_all_iff)
next
  assume fs: "fs \<noteq> []"
  show "\<forall>u \<in> set (map (new_upload (clock st)) fs). status u = Uploading"
    by (simp add: status_new_upload)
  show "uploadingFiles (handleFileSelect (Some fs) st)
            = uploadingFiles st @ map (new_upload (clock st)) fs"
    using fs by (rule handleFileSelect_Some)
  obtain f fs' where "fs = f # fs'" using fs by (cases fs) auto
  then show "\<not> allUploaded (uploadingFiles (handleFileSelect (Some fs) st))"
    by (simp add: handleFileSelect_Some allUploaded_def list_all_iff status_new_upload)
qed

theorem allUploaded_iff_witness:
  "allUploaded (uploadingFiles example_state)
   \<and> \<not> allUploaded (uploadingFiles (handleFileSelect (Some [example_file]) example_state))"
  using allUploaded_iff [of "uploadingFiles example_state" "[example_file]" example_state]
  by (simp add: example_state_def example_entry_def allUploaded_def)

end
